theory Spec2Isabelle
  imports Main "HOL-Library.Word"
begin

section \<open>birpc: the bidirectional RPC peer engine (client.go, server.go)\<close>

text \<open>
  A shallow embedding of the peer engine of package birpc. The Go struct \<^verbatim>\<open>Client\<close> is the
  record \<open>Client\<close>; the objects it shares by pointer (\<^verbatim>\<open>*Call\<close>, \<^verbatim>\<open>chan *Call\<close>) live in an
  explicit store (\<open>heap\<close>, \<open>chans\<close>) and are addressed by index. What the engine does to the
  outside (codec calls, channel sends, lock operations, closing the disconnect channel) is
  appended to a chronological \<open>trace\<close>. The codec is an interface: what each codec call
  returns is an input of the function that makes the call.
\<close>

subsection \<open>Values, errors, frames\<close>

type_synonym uint64 = "64 word"
type_synonym call_ref = nat
type_synonym chan_ref = nat

text \<open>The Go error values the engine produces or tells apart. \<open>ErrorString\<close> is
  \<^verbatim>\<open>errors.New\<close>; codec and handler errors are of that kind too.\<close>

datatype error =
    EOF
  | ErrUnexpectedEOF
  | ErrShutdown
  | Canceled
  | ServerError string
  | ErrorString string

fun Error_string :: "error \<Rightarrow> string" where
  "Error_string EOF = ''EOF''"
| "Error_string ErrUnexpectedEOF = ''unexpected EOF''"
| "Error_string ErrShutdown = ''connection is shut down''"
| "Error_string Canceled = ''context canceled''"
| "Error_string (ServerError s) = s"
| "Error_string (ErrorString s) = s"

text \<open>Modelled from the spec: the declarations of \<^verbatim>\<open>Request\<close> and \<^verbatim>\<open>Response\<close> are not in the
  sources; the code uses the fields \<^verbatim>\<open>Seq\<close>, \<^verbatim>\<open>Method\<close> and \<^verbatim>\<open>Error\<close>, the spec gives their types
  (\<^verbatim>\<open>Seq: u64\<close>, \<^verbatim>\<open>Method: string\<close>, \<^verbatim>\<open>Error: string\<close>).\<close>

record Request =
  req_Seq :: uint64
  req_Method :: string

record Response =
  resp_Seq :: uint64
  resp_Error :: string

text \<open>\<^verbatim>\<open>interface{}\<close> values that travel as arguments, replies and bodies. \<open>ICancelArgs\<close> is
  \<^verbatim>\<open>svc.CancelArgs{Seq}\<close>, \<open>IResponse\<close> a \<^verbatim>\<open>Response\<close> passed as a body, \<open>IPtr\<close> a pointer.\<close>

datatype iface =
    INil
  | IInt int
  | IStr string
  | ICancelArgs uint64
  | IResponse Response
  | IPtr iface

subsection \<open>Handlers (server.go: handler, addHandler)\<close>

text \<open>What \<^verbatim>\<open>reflect\<close> tells about a type: that it is a pointer to another type, or its name
  and package path. The third argument of \<open>Named\<close> is what \<^verbatim>\<open>unicode.IsUpper\<close> answers for the first
  rune of the name (\<^verbatim>\<open>utf8.DecodeRuneInString\<close>): these are the two library calls \<^verbatim>\<open>isExported\<close>
  consists of, and their answer comes with the type.\<close>

datatype rtype = Named string string bool | PtrTo rtype

text \<open>A panic: \<open>Panic\<close> with the message of \<^verbatim>\<open>panic\<close>, of \<^verbatim>\<open>log.Panic\<close> or of the runtime;
  \<open>Panicln\<close> with the operands of \<^verbatim>\<open>log.Panicln\<close>, which the library formats.\<close>

datatype panic_operand = PStr string | PNat nat | PType rtype

datatype panic = Panic string | Panicln "panic_operand list"

fun Kind_is_Ptr :: "rtype \<Rightarrow> bool" where
  "Kind_is_Ptr (PtrTo t) = True"
| "Kind_is_Ptr (Named n p u) = False"

definition typeOfError :: rtype where
  "typeOfError = Named ''error'' [] False"

definition typeOfCtx :: rtype where
  "typeOfCtx = Named ''Context'' ''context'' True"

text \<open>A handler function as reflection sees it: parameter types, result types, and what a
  call computes (the reply it stores and the error it returns).\<close>

record func =
  ins :: "rtype list"
  outs :: "rtype list"
  impl :: "iface \<Rightarrow> iface \<times> error option"

record handler =
  fn :: func
  argType :: rtype
  replyType :: rtype

text \<open>\<^verbatim>\<open>isExported(t.Name())\<close>: whether the first rune of the name is upper case.\<close>

fun isExported :: "rtype \<Rightarrow> bool" where
  "isExported (Named n p u) = u"
| "isExported (PtrTo t) = False"

fun PkgPath :: "rtype \<Rightarrow> string" where
  "PkgPath (Named n p u) = p"
| "PkgPath (PtrTo t) = []"

text \<open>\<^verbatim>\<open>isExportedOrBuiltinType\<close>: the loop strips the pointers first.\<close>

fun isExportedOrBuiltinType :: "rtype \<Rightarrow> bool" where
  "isExportedOrBuiltinType (PtrTo t) = isExportedOrBuiltinType t"
| "isExportedOrBuiltinType (Named n p u) = (isExported (Named n p u) \<or> PkgPath (Named n p u) = [])"

definition addHandler ::
  "(string \<rightharpoonup> handler) \<Rightarrow> string \<Rightarrow> func \<Rightarrow> panic + (string \<rightharpoonup> handler)" where
  "addHandler hs mname handlerFunc =
     (if hs mname \<noteq> None then Inl (Panic (''birpc: multiple registrations for '' @ mname))
      else if length (ins handlerFunc) \<noteq> 3
        then Inl (Panicln [PStr ''method'', PStr mname, PStr ''has wrong number of ins:'',
                           PNat (length (ins handlerFunc))])
      else if ins handlerFunc ! 0 \<noteq> typeOfCtx
        then Inl (Panicln [PStr ''method'', PStr mname, PStr ''first argument'',
                           PType (ins handlerFunc ! 0), PStr ''not context.Context''])
      else if \<not> isExportedOrBuiltinType (ins handlerFunc ! 1)
        then Inl (Panicln [PStr mname, PStr ''argument type not exported:'',
                           PType (ins handlerFunc ! 1)])
      else if \<not> Kind_is_Ptr (ins handlerFunc ! 2)
        then Inl (Panicln [PStr ''method'', PStr mname, PStr ''reply type not a pointer:'',
                           PType (ins handlerFunc ! 2)])
      else if \<not> isExportedOrBuiltinType (ins handlerFunc ! 2)
        then Inl (Panicln [PStr ''method'', PStr mname, PStr ''reply type not exported:'',
                           PType (ins handlerFunc ! 2)])
      else if length (outs handlerFunc) \<noteq> 1
        then Inl (Panicln [PStr ''method'', PStr mname, PStr ''has wrong number of outs:'',
                           PNat (length (outs handlerFunc))])
      else if outs handlerFunc ! 0 \<noteq> typeOfError
        then Inl (Panicln [PStr ''method'', PStr mname, PStr ''returns'',
                           PType (outs handlerFunc ! 0), PStr ''not error''])
      else Inr (hs(mname \<mapsto>
             \<lparr>fn = handlerFunc, argType = ins handlerFunc ! 1, replyType = ins handlerFunc ! 2\<rparr>)))"

subsection \<open>The engine's state\<close>

record Chan =
  chan_cap :: nat
  chan_buf :: "call_ref list"

record Call =
  call_Method :: string
  call_Args :: iface
  call_Reply :: iface
  call_Error :: "error option"
  call_Done :: chan_ref
  call_seq :: uint64

text \<open>The fields of \<^verbatim>\<open>Client\<close>. The two locks \<^verbatim>\<open>mutex\<close> and \<^verbatim>\<open>sending\<close> have no field: taking and
  releasing them is recorded in the trace. \<open>disconnect\<close> is whether the channel is closed.\<close>

record Client =
  request :: Request
  seq :: uint64
  pending :: "uint64 \<rightharpoonup> call_ref"
  closing :: bool
  shutdown :: bool
  server :: bool
  handlers :: "string \<rightharpoonup> handler"
  disconnect :: bool
  State :: "nat option"
  blocking :: bool

datatype lock = Sending | Mutex

datatype event =
    Lock lock
  | Unlock lock
  | Assign uint64 call_ref
  | ReadRequestBody
  | ReadResponseBody "call_ref option"
  | WriteRequest Request iface
  | WriteResponse Response iface
  | CodecClose
  | ChanSend call_ref chan_ref
  | Discard call_ref chan_ref
  | CloseDisconnect
  | SetPending
  | PendingStart uint64
  | PendingCancel uint64
  | Invoke string iface
  | Spawn Request

record world =
  client :: Client
  heap :: "Call list"
  chans :: "Chan list"
  trace :: "event list"

definition emit :: "event list \<Rightarrow> world \<Rightarrow> world" where
  "emit es w = w\<lparr>trace := trace w @ es\<rparr>"

definition set_Error :: "call_ref \<Rightarrow> error \<Rightarrow> world \<Rightarrow> world" where
  "set_Error r e w = w\<lparr>heap := (heap w)[r := (heap w ! r)\<lparr>call_Error := Some e\<rparr>]\<rparr>"

definition set_Reply :: "call_ref \<Rightarrow> iface \<Rightarrow> world \<Rightarrow> world" where
  "set_Reply r v w =
     (if call_Reply (heap w ! r) = INil then w
      else w\<lparr>heap := (heap w)[r := (heap w ! r)\<lparr>call_Reply := v\<rparr>]\<rparr>)"

text \<open>\<^verbatim>\<open>Call.done\<close>: a send on the call's \<^verbatim>\<open>Done\<close> channel that never blocks. It goes through
  when the buffer has room; otherwise the \<^verbatim>\<open>default\<close> branch drops it.\<close>

definition call_done :: "call_ref \<Rightarrow> world \<Rightarrow> world" where
  "call_done r w =
     (let ch = call_Done (heap w ! r); c = chans w ! ch in
      if length (chan_buf c) < chan_cap c
      then emit [ChanSend r ch] (w\<lparr>chans := (chans w)[ch := c\<lparr>chan_buf := chan_buf c @ [r]\<rparr>]\<rparr>)
      else emit [Discard r ch] w)"

subsection \<open>Inbound requests (client.go: readRequest, handleRequest)\<close>

definition handleRequest ::
  "Request \<Rightarrow> handler \<Rightarrow> iface \<Rightarrow> error option \<Rightarrow> world \<Rightarrow> world" where
  "handleRequest req method argv wres w =
     (let w1 = (if take 7 (req_Method req) = ''_goRPC_''
                then (case argv of IPtr (ICancelArgs s) \<Rightarrow> emit [SetPending] w | _ \<Rightarrow> w)
                else w);
          w2 = emit [PendingStart (req_Seq req)] w1;
          (replyv, herr) = impl (fn method) argv;
          w3 = emit [Invoke (req_Method req) argv] w2
      in if req_Seq req = 0 then emit [PendingCancel (req_Seq req)] w3
         else
           let errmsg = (case herr of None \<Rightarrow> [] | Some e \<Rightarrow> Error_string e);
               resp = \<lparr>resp_Seq = req_Seq req, resp_Error = errmsg\<rparr>
           in emit [WriteResponse resp replyv, PendingCancel (req_Seq req)] w3)"

text \<open>\<open>body\<close> is what \<^verbatim>\<open>ReadRequestBody\<close> would return (an error or the decoded argument),
  \<open>wres\<close> what \<^verbatim>\<open>WriteResponse\<close> would return.\<close>

definition readRequest ::
  "Request \<Rightarrow> error + iface \<Rightarrow> error option \<Rightarrow> world \<Rightarrow> error option \<times> world" where
  "readRequest req body wres w =
     (case handlers (client w) (req_Method req) of
        None \<Rightarrow>
          (let resp = \<lparr>resp_Seq = req_Seq req,
                       resp_Error = ''birpc: can't find method '' @ req_Method req\<rparr>
           in (wres, emit [WriteResponse resp (IResponse resp)] w))
      | Some method \<Rightarrow>
          (let argIsValue = \<not> Kind_is_Ptr (argType method);
               w1 = emit [ReadRequestBody] w
           in case body of
                Inl err \<Rightarrow> (Some err, w1)
              | Inr v \<Rightarrow>
                  (let argv = (if argIsValue then v else IPtr v)
                   in if blocking (client w1) then (None, handleRequest req method argv wres w1)
                      else (None, emit [Spawn req] w1))))"

subsection \<open>Inbound responses (client.go: readResponse)\<close>

text \<open>\<open>body\<close> is what \<^verbatim>\<open>ReadResponseBody\<close> would return: an error or the decoded reply.\<close>

definition wrap_body_error :: "error + iface \<Rightarrow> error option" where
  "wrap_body_error body =
     (case body of
        Inl e \<Rightarrow> Some (ErrorString (''reading error body: '' @ Error_string e))
      | Inr v \<Rightarrow> None)"

definition readResponse :: "Response \<Rightarrow> error + iface \<Rightarrow> world \<Rightarrow> error option \<times> world" where
  "readResponse resp body w0 =
     (let sq = resp_Seq resp;
          w = emit [Lock Mutex] w0;
          call = pending (client w) sq;
          w1 = emit [Unlock Mutex]
                 (w\<lparr>client := (client w)\<lparr>pending := (pending (client w))(sq := None)\<rparr>\<rparr>)
      in case call of
           None \<Rightarrow> (wrap_body_error body, emit [ReadResponseBody None] w1)
         | Some r \<Rightarrow>
             if resp_Error resp \<noteq> [] then
               (wrap_body_error body,
                call_done r (emit [ReadResponseBody None]
                               (set_Error r (ServerError (resp_Error resp)) w1)))
             else
               (let w2 = emit [ReadResponseBody (Some r)] w1
                in case body of
                     Inl e \<Rightarrow>
                       (Some e,
                        call_done r
                          (set_Error r (ErrorString (''reading body '' @ Error_string e)) w2))
                   | Inr v \<Rightarrow> (None, call_done r (set_Reply r v w2))))"

subsection \<open>Outbound calls (client.go: send, Notify, Go, Call, Close)\<close>

text \<open>\<^verbatim>\<open>send\<close> in three parts, in program order: the registration under both locks, the
  write of the request, and what follows the write. \<open>werr\<close> is what \<^verbatim>\<open>WriteRequest\<close>
  returns. The first part returns whether the function goes on to write.\<close>

definition send_register :: "call_ref \<Rightarrow> world \<Rightarrow> uint64 option \<times> world" where
  "send_register call w0 =
     (let w = emit [Lock Sending, Lock Mutex] w0; c = client w in
      if shutdown c \<or> closing c then
        (None, emit [Unlock Sending]
                 (call_done call (emit [Unlock Mutex] (set_Error call ErrShutdown w))))
      else if call_seq (heap w ! call) \<noteq> 0 then
        (None, emit [Unlock Sending]
                 (call_done call (emit [Unlock Mutex] (set_Error call Canceled w))))
      else
        (let sq = seq c;
             w1 = w\<lparr>client := c\<lparr>seq := seq c + 1, pending := (pending c)(sq \<mapsto> call)\<rparr>,
                    heap := (heap w)[call := (heap w ! call)\<lparr>call_seq := sq\<rparr>]\<rparr>
         in (Some sq, emit [Assign sq call, Unlock Mutex] w1)))"

definition send_write :: "call_ref \<Rightarrow> uint64 \<Rightarrow> world \<Rightarrow> world" where
  "send_write call sq w =
     (let rq = \<lparr>req_Seq = sq, req_Method = call_Method (heap w ! call)\<rparr>;
          w1 = w\<lparr>client := (client w)\<lparr>request := rq\<rparr>\<rparr>
      in emit [WriteRequest (request (client w1)) (call_Args (heap w1 ! call))] w1)"

definition send_finish :: "uint64 \<Rightarrow> error option \<Rightarrow> world \<Rightarrow> world" where
  "send_finish sq werr w =
     (case werr of
        None \<Rightarrow> emit [Unlock Sending] w
      | Some err \<Rightarrow>
          (let w1 = emit [Lock Mutex] w;
               call = pending (client w1) sq;
               w2 = emit [Unlock Mutex]
                      (w1\<lparr>client := (client w1)\<lparr>pending := (pending (client w1))(sq := None)\<rparr>\<rparr>)
           in case call of
                None \<Rightarrow> emit [Unlock Sending] w2
              | Some r \<Rightarrow> emit [Unlock Sending] (call_done r (set_Error r err w2))))"

definition send :: "call_ref \<Rightarrow> error option \<Rightarrow> world \<Rightarrow> world" where
  "send call werr w =
     (case send_register call w of
        (None, w1) \<Rightarrow> w1
      | (Some sq, w1) \<Rightarrow> send_finish sq werr (send_write call sq w1))"

definition Notify :: "string \<Rightarrow> iface \<Rightarrow> error option \<Rightarrow> world \<Rightarrow> error option \<times> world" where
  "Notify method args werr w0 =
     (let w = emit [Lock Sending] w0 in
      if shutdown (client w) \<or> closing (client w) then (Some ErrShutdown, emit [Unlock Sending] w)
      else
        (let w1 = w\<lparr>client := (client w)\<lparr>request := \<lparr>req_Seq = 0, req_Method = method\<rparr>\<rparr>\<rparr>
         in (werr, emit [WriteRequest (request (client w1)) args, Unlock Sending] w1)))"

text \<open>\<^verbatim>\<open>Go\<close>: \<open>dn\<close> is the caller's channel, \<open>None\<close> for \<^verbatim>\<open>nil\<close>. The new \<^verbatim>\<open>Call\<close> is the next
  free cell of the heap.\<close>

definition Go ::
  "string \<Rightarrow> iface \<Rightarrow> iface \<Rightarrow> chan_ref option \<Rightarrow> error option \<Rightarrow> world
     \<Rightarrow> panic + (call_ref \<times> world)" where
  "Go method args reply dn werr w =
     (let call = length (heap w);
          new = \<lparr>call_Method = method, call_Args = args, call_Reply = reply,
                 call_Error = None, call_Done = 0, call_seq = 0\<rparr>
      in case dn of
           None \<Rightarrow>
             (let ch = length (chans w);
                  w1 = w\<lparr>chans := chans w @ [\<lparr>chan_cap = 10, chan_buf = []\<rparr>],
                         heap := heap w @ [new\<lparr>call_Done := ch\<rparr>]\<rparr>
              in Inr (call, send call werr w1))
         | Some ch \<Rightarrow>
             if chan_cap (chans w ! ch) = 0
             then Inl (Panic ''birpc: done channel is unbuffered'')
             else Inr (call, send call werr (w\<lparr>heap := heap w @ [new\<lparr>call_Done := ch\<rparr>]\<rparr>)))"

text \<open>\<^verbatim>\<open>Call\<close> up to its \<^verbatim>\<open>select\<close>: a fresh channel of capacity 2, then \<^verbatim>\<open>Go\<close>.\<close>

definition Call_Go ::
  "string \<Rightarrow> iface \<Rightarrow> iface \<Rightarrow> error option \<Rightarrow> world \<Rightarrow> panic + (call_ref \<times> world)" where
  "Call_Go serviceMethod args reply werr w =
     (let ch = length (chans w)
      in Go serviceMethod args reply (Some ch) werr
           (w\<lparr>chans := chans w @ [\<lparr>chan_cap = 2, chan_buf = []\<rparr>]\<rparr>))"

text \<open>The branch \<^verbatim>\<open>case <-call.Done\<close> of the \<^verbatim>\<open>select\<close>: it can be taken when the channel
  holds a value (\<open>None\<close> otherwise); the value is received and \<^verbatim>\<open>call.Error\<close> returned.\<close>

definition Call_Done :: "call_ref \<Rightarrow> world \<Rightarrow> (error option \<times> world) option" where
  "Call_Done call w =
     (let ch = call_Done (heap w ! call); c = chans w ! ch in
      case chan_buf c of
        [] \<Rightarrow> None
      | r # rs \<Rightarrow>
          Some (call_Error (heap w ! call), w\<lparr>chans := (chans w)[ch := c\<lparr>chan_buf := rs\<rparr>]\<rparr>))"

text \<open>The branch \<^verbatim>\<open>case <-ctx.Done()\<close>: \<open>ctxErr\<close> is \<^verbatim>\<open>ctx.Err()\<close>, \<open>werr\<close> what the write of
  the cancel request returns, should it be written.\<close>

definition Call_ctxDone ::
  "call_ref \<Rightarrow> error \<Rightarrow> error option \<Rightarrow> world \<Rightarrow> panic + (error \<times> world)" where
  "Call_ctxDone call ctxErr werr w0 =
     (let w = emit [Lock Mutex] w0;
          sq = call_seq (heap w ! call);
          ok = (pending (client w) sq \<noteq> None);
          w1 = w\<lparr>client := (client w)\<lparr>pending := (pending (client w))(sq := None)\<rparr>\<rparr>;
          w2 = (if sq = 0 then w1\<lparr>heap := (heap w1)[call := (heap w1 ! call)\<lparr>call_seq := 1\<rparr>]\<rparr>
                else w1);
          w3 = emit [Unlock Mutex] w2
      in if sq \<noteq> 0 \<and> ok then
           (case Go ''_goRPC_.Cancel'' (IPtr (ICancelArgs sq)) INil
                   (Some (call_Done (heap w3 ! call))) werr w3 of
              Inl p \<Rightarrow> Inl p
            | Inr (cancel_call, w4) \<Rightarrow> Inr (ctxErr, w4))
         else Inr (ctxErr, w3))"

text \<open>\<open>cerr\<close> is what \<^verbatim>\<open>codec.Close\<close> returns.\<close>

definition Close :: "error option \<Rightarrow> world \<Rightarrow> error option \<times> world" where
  "Close cerr w0 =
     (let w = emit [Lock Mutex] w0 in
      if shutdown (client w) \<or> closing (client w) then (Some ErrShutdown, emit [Unlock Mutex] w)
      else (cerr, emit [Unlock Mutex, CodecClose]
                    (w\<lparr>client := (client w)\<lparr>closing := True\<rparr>\<rparr>)))"

subsection \<open>The read loop (client.go: readLoop)\<close>

text \<open>One message as the codec delivers it: the two header slots \<^verbatim>\<open>ReadHeader\<close> fills, what the
  body read returns and what the response write returns, should they be called.\<close>

record frame =
  f_req :: Request
  f_resp :: Response
  f_body :: "error + iface"
  f_write :: "error option"

text \<open>The loop over the frames the codec delivers before \<^verbatim>\<open>ReadHeader\<close> first fails, with
  \<open>herr\<close>. It returns the error the loop ends with.\<close>

fun readLoop_frames :: "frame list \<Rightarrow> error \<Rightarrow> world \<Rightarrow> error \<times> world" where
  "readLoop_frames [] herr w = (herr, w)"
| "readLoop_frames (f # fs) herr w =
     (if req_Method (f_req f) \<noteq> [] then
        (case readRequest (f_req f) (f_body f) (f_write f) w of
           (Some err, w1) \<Rightarrow> (err, w1)
         | (None, w1) \<Rightarrow> readLoop_frames fs herr w1)
      else
        (case readResponse (f_resp f) (f_body f) w of
           (Some err, w1) \<Rightarrow> (err, w1)
         | (None, w1) \<Rightarrow> readLoop_frames fs herr w1))"

text \<open>\<^verbatim>\<open>for _, call := range c.pending\<close>: \<open>ks\<close> is the order in which the runtime visits the
  keys.\<close>

fun terminate_calls :: "error \<Rightarrow> uint64 list \<Rightarrow> world \<Rightarrow> world" where
  "terminate_calls err [] w = w"
| "terminate_calls err (k # ks) w =
     (case pending (client w) k of
        None \<Rightarrow> terminate_calls err ks w
      | Some r \<Rightarrow> terminate_calls err ks (call_done r (set_Error r err w)))"

text \<open>What \<^verbatim>\<open>readLoop\<close> does after the loop. Closing a channel that is closed panics.\<close>

definition readLoop_exit :: "error \<Rightarrow> uint64 list \<Rightarrow> world \<Rightarrow> panic + world" where
  "readLoop_exit err0 ks w0 =
     (let w = emit [Lock Sending, Lock Mutex] w0;
          w1 = w\<lparr>client := (client w)\<lparr>shutdown := True\<rparr>\<rparr>;
          closing' = closing (client w1);
          err = (if err0 = EOF then (if closing' then ErrShutdown else ErrUnexpectedEOF)
                 else err0);
          w2 = terminate_calls err ks w1;
          w3 = emit [Unlock Mutex, Unlock Sending] w2
      in if disconnect (client w3) then Inl (Panic ''close of closed channel'')
         else
           (let w4 = emit [CloseDisconnect] (w3\<lparr>client := (client w3)\<lparr>disconnect := True\<rparr>\<rparr>)
            in Inr (if \<not> closing' then emit [CodecClose] w4 else w4)))"

definition readLoop :: "frame list \<Rightarrow> error \<Rightarrow> uint64 list \<Rightarrow> world \<Rightarrow> panic + world" where
  "readLoop fs herr ks w =
     (case readLoop_frames fs herr w of (err, w1) \<Rightarrow> readLoop_exit err ks w1)"

subsection \<open>Creating peers (client.go: NewClientWithCodec, Handle; server.go)\<close>

definition Handle :: "Client \<Rightarrow> string \<Rightarrow> func \<Rightarrow> panic + Client" where
  "Handle c method handlerFunc =
     (case addHandler (handlers c) method handlerFunc of
        Inl p \<Rightarrow> Inl p
      | Inr hs \<Rightarrow> Inr (c\<lparr>handlers := hs\<rparr>))"

text \<open>\<open>Client_literal\<close> is the composite literal of \<^verbatim>\<open>NewClientWithCodec\<close>. \<open>cancel\<close> is the
  method value \<^verbatim>\<open>(&svc.GoRPC{}).Cancel\<close>; package \<^verbatim>\<open>internal/svc\<close> is not in the sources, so
  the function is a parameter.\<close>

definition Client_literal :: Client where
  "Client_literal =
     \<lparr>request = \<lparr>req_Seq = 0, req_Method = []\<rparr>, seq = 1, pending = Map.empty,
      closing = False, shutdown = False, server = False, handlers = Map.empty,
      disconnect = False, State = None, blocking = False\<rparr>"

definition NewClientWithCodec :: "func \<Rightarrow> panic + Client" where
  "NewClientWithCodec cancel = Handle Client_literal ''_goRPC_.Cancel'' cancel"

record Server =
  srv_handlers :: "string \<rightharpoonup> handler"

definition NewServer :: Server where
  "NewServer = \<lparr>srv_handlers = Map.empty\<rparr>"

definition Server_Handle :: "Server \<Rightarrow> string \<Rightarrow> func \<Rightarrow> panic + Server" where
  "Server_Handle s method handlerFunc =
     (case addHandler (srv_handlers s) method handlerFunc of
        Inl p \<Rightarrow> Inl p
      | Inr hs \<Rightarrow> Inr (s\<lparr>srv_handlers := hs\<rparr>))"

text \<open>The peer \<^verbatim>\<open>ServeCodecWithState\<close> builds for a connection and then runs: the statements
  from \<^verbatim>\<open>c := NewClientWithCodec(codec)\<close> to \<^verbatim>\<open>c.State = state\<close>.\<close>

definition ServeCodecWithState_peer :: "Server \<Rightarrow> nat option \<Rightarrow> func \<Rightarrow> panic + Client" where
  "ServeCodecWithState_peer s state cancel =
     (case NewClientWithCodec cancel of
        Inl p \<Rightarrow> Inl p
      | Inr c \<Rightarrow> Inr (c\<lparr>server := True, handlers := srv_handlers s, State := state\<rparr>))"

text \<open>Modelled from the spec: \<^verbatim>\<open>svc.GoRPC.Cancel\<close> is in \<^verbatim>\<open>internal/svc\<close>, which is not in the
  sources. The spec gives its argument (\<^verbatim>\<open>{seq}\<close>); its shape is the one every handler has
  (context, argument, pointer to reply, one error result). Used where a concrete handler
  function is needed.\<close>

definition GoRPC_Cancel :: func where
  "GoRPC_Cancel =
     \<lparr>ins = [typeOfCtx,
             PtrTo (Named ''CancelArgs'' ''github.com/cgrates/birpc/internal/svc'' True),
             PtrTo (Named ''bool'' [] False)],
      outs = [typeOfError],
      impl = (\<lambda>a. (IPtr (IInt 1), None))\<rparr>"

text \<open>A world around a client: no calls, no channels, nothing done yet.\<close>

definition new_world :: "Client \<Rightarrow> world" where
  "new_world c = \<lparr>client = c, heap = [], chans = [], trace = []\<rparr>"

subsection \<open>Runs of the engine\<close>

text \<open>
  What the engine's users and its reader do, one step at a time, each with what the codec
  returns to it: a run of the engine is a list of such steps. A step that names a call or a
  channel that does not exist, or that would block, or (for the end of the read loop) a key
  order that does not enumerate the pending table, cannot happen: it leaves the world as it
  is. \<open>AHandleRequest\<close> is a handler started by \<^verbatim>\<open>go c.handleRequest\<close>; \<open>AMakeChan\<close> and \<open>ARecv\<close>
  are the caller making a channel and receiving from one.
\<close>

datatype action =
    AGo string iface iface "chan_ref option" "error option"
  | ACall string iface iface "error option"
  | ACallDone call_ref
  | ACtxDone call_ref error "error option"
  | ANotify string iface "error option"
  | AClose "error option"
  | AReadRequest Request "error + iface" "error option"
  | AHandleRequest Request iface "error option"
  | AReadResponse Response "error + iface"
  | AExit error "uint64 list"
  | AMakeChan nat
  | ARecv chan_ref
  | AHandle string func
  | ASetBlocking bool

definition valid_call :: "call_ref \<Rightarrow> world \<Rightarrow> bool" where
  "valid_call r w = (r < length (heap w) \<and> call_Done (heap w ! r) < length (chans w))"

fun exec :: "action \<Rightarrow> world \<Rightarrow> panic + world" where
  "exec (AGo method args reply dn werr) w =
     (if (case dn of None \<Rightarrow> True | Some ch \<Rightarrow> ch < length (chans w))
      then map_sum id snd (Go method args reply dn werr w)
      else Inr w)"
| "exec (ACall method args reply werr) w = map_sum id snd (Call_Go method args reply werr w)"
| "exec (ACallDone call) w =
     (if valid_call call w
      then (case Call_Done call w of None \<Rightarrow> Inr w | Some (e, w') \<Rightarrow> Inr w')
      else Inr w)"
| "exec (ACtxDone call ctxErr werr) w =
     (if valid_call call w then map_sum id snd (Call_ctxDone call ctxErr werr w) else Inr w)"
| "exec (ANotify method args werr) w = Inr (snd (Notify method args werr w))"
| "exec (AClose cerr) w = Inr (snd (Close cerr w))"
| "exec (AReadRequest req body wres) w = Inr (snd (readRequest req body wres w))"
| "exec (AHandleRequest req argv wres) w =
     (case handlers (client w) (req_Method req) of
        None \<Rightarrow> Inr w
      | Some method \<Rightarrow> Inr (handleRequest req method argv wres w))"
| "exec (AReadResponse resp body) w = Inr (snd (readResponse resp body w))"
| "exec (AExit err ks) w =
     (if distinct ks \<and> set ks = dom (pending (client w)) then readLoop_exit err ks w
      else Inr w)"
| "exec (AMakeChan n) w = Inr (w\<lparr>chans := chans w @ [\<lparr>chan_cap = n, chan_buf = []\<rparr>]\<rparr>)"
| "exec (ARecv ch) w =
     (if ch < length (chans w)
      then Inr (w\<lparr>chans := (chans w)[ch := (chans w ! ch)\<lparr>chan_buf := tl (chan_buf (chans w ! ch))\<rparr>]\<rparr>)
      else Inr w)"
| "exec (AHandle method handlerFunc) w =
     (case Handle (client w) method handlerFunc of
        Inl p \<Rightarrow> Inl p
      | Inr c \<Rightarrow> Inr (w\<lparr>client := c\<rparr>))"
| "exec (ASetBlocking b) w = Inr (w\<lparr>client := (client w)\<lparr>blocking := b\<rparr>\<rparr>)"

fun run :: "world \<Rightarrow> action list \<Rightarrow> panic + world" where
  "run w [] = Inr w"
| "run w (a # as) = (case exec a w of Inl p \<Rightarrow> Inl p | Inr w' \<Rightarrow> run w' as)"

text \<open>The reader is one task: it reads requests and responses until its loop ends, once.
  \<open>single_reader\<close> says so of a list of steps.\<close>

fun is_read :: "action \<Rightarrow> bool" where
  "is_read (AReadRequest req body wres) = True"
| "is_read (AReadResponse resp body) = True"
| "is_read (AExit err ks) = True"
| "is_read a = False"

fun is_exit :: "action \<Rightarrow> bool" where
  "is_exit (AExit err ks) = True"
| "is_exit a = False"

fun single_reader :: "action list \<Rightarrow> bool" where
  "single_reader [] = True"
| "single_reader (a # as) =
     (if is_exit a then list_all (\<lambda>b. \<not> is_read b) as else single_reader as)"

subsection \<open>Reading the trace\<close>

text \<open>The trace entry \<open>call_done r\<close> makes in world \<open>w\<close>: the send, or the drop.\<close>

definition done_event :: "call_ref \<Rightarrow> world \<Rightarrow> event" where
  "done_event r w =
     (let ch = call_Done (heap w ! r) in
      if length (chan_buf (chans w ! ch)) < chan_cap (chans w ! ch)
      then ChanSend r ch else Discard r ch)"

text \<open>How often a call was delivered on a channel, and how often \<^verbatim>\<open>done\<close> ran on it.\<close>

fun is_ChanSend :: "call_ref \<Rightarrow> event \<Rightarrow> bool" where
  "is_ChanSend r (ChanSend r' ch) = (r = r')"
| "is_ChanSend r e = False"

fun is_done :: "call_ref \<Rightarrow> event \<Rightarrow> bool" where
  "is_done r (ChanSend r' ch) = (r = r')"
| "is_done r (Discard r' ch) = (r = r')"
| "is_done r e = False"

definition deliveries :: "call_ref \<Rightarrow> event list \<Rightarrow> nat" where
  "deliveries r es = length (filter (is_ChanSend r) es)"

definition dones :: "call_ref \<Rightarrow> event list \<Rightarrow> nat" where
  "dones r es = length (filter (is_done r) es)"

fun is_WriteRequest :: "event \<Rightarrow> bool" where
  "is_WriteRequest (WriteRequest rq b) = True"
| "is_WriteRequest e = False"

text \<open>The trace entries \<open>terminate_calls\<close> makes: one per entry of the pending table it
  visits.\<close>

fun terminate_events :: "error \<Rightarrow> uint64 list \<Rightarrow> world \<Rightarrow> event list" where
  "terminate_events err [] w = []"
| "terminate_events err (k # ks) w =
     (case pending (client w) k of
        None \<Rightarrow> terminate_events err ks w
      | Some r \<Rightarrow>
          done_event r (set_Error r err w)
            # terminate_events err ks (call_done r (set_Error r err w)))"

fun is_strobe :: "event \<Rightarrow> bool" where
  "is_strobe (ChanSend r ch) = True"
| "is_strobe (Discard r ch) = True"
| "is_strobe e = False"

text \<open>How many of the keys \<open>ks\<close> hold a call whose \<^verbatim>\<open>Done\<close> channel is \<open>ch\<close>.\<close>

definition waiting_on :: "chan_ref \<Rightarrow> uint64 list \<Rightarrow> world \<Rightarrow> nat" where
  "waiting_on ch ks w =
     length (filter (\<lambda>k. case pending (client w) k of
                            None \<Rightarrow> False
                          | Some r \<Rightarrow> call_Done (heap w ! r) = ch) ks)"

text \<open>The error the pending calls get when the loop ended with \<open>err\<close>.\<close>

definition exit_error :: "error \<Rightarrow> bool \<Rightarrow> error" where
  "exit_error err closing' =
     (if err = EOF then (if closing' then ErrShutdown else ErrUnexpectedEOF) else err)"

text \<open>Reading a trace for the send lock: \<open>h\<close> is whether the lock is held. The result is
  whether it is held at the end, or \<open>None\<close> when the lock is taken while held, released while
  free, or a request is written while it is free.\<close>

fun sending_scan :: "bool \<Rightarrow> event list \<Rightarrow> bool option" where
  "sending_scan h [] = Some h"
| "sending_scan h (Lock Sending # es) = (if h then None else sending_scan True es)"
| "sending_scan h (Unlock Sending # es) = (if h then sending_scan False es else None)"
| "sending_scan h (WriteRequest rq b # es) = (if h then sending_scan h es else None)"
| "sending_scan h (e # es) = sending_scan h es"

definition sending_ok :: "world \<Rightarrow> bool" where
  "sending_ok w = (sending_scan False (trace w) = Some False)"

text \<open>The sequence numbers \<^verbatim>\<open>send\<close> assigned, in the order of assignment.\<close>

fun assigned :: "event list \<Rightarrow> uint64 list" where
  "assigned [] = []"
| "assigned (Assign s r # es) = s # assigned es"
| "assigned (e # es) = assigned es"

definition assigned_of :: "panic + world \<Rightarrow> uint64 list" where
  "assigned_of res = (case res of Inl p \<Rightarrow> [] | Inr w \<Rightarrow> assigned (trace w))"

text \<open>The counter \<^verbatim>\<open>c.seq\<close> is one more than the number of assignments made, and the
  assignments made are 1, 2, 3, ... (in \<^verbatim>\<open>uint64\<close>).\<close>

definition seq_inv :: "world \<Rightarrow> bool" where
  "seq_inv w =
     (assigned (trace w) = map (\<lambda>i. word_of_nat (Suc i)) [0..<length (assigned (trace w))]
      \<and> seq (client w) = word_of_nat (Suc (length (assigned (trace w)))))"

definition trace_of :: "panic + world \<Rightarrow> event list" where
  "trace_of res = (case res of Inl p \<Rightarrow> [] | Inr w \<Rightarrow> trace w)"

text \<open>What holds of the pending table and of \<^verbatim>\<open>done\<close> in every run: \<^verbatim>\<open>done\<close> ran at most once on
  a call and never on a call that does not exist yet; the pending table holds calls that
  exist, each under one key. While the read loop runs, \<^verbatim>\<open>done\<close> has not run on a call that is
  in the pending table.\<close>

definition inv_base :: "world \<Rightarrow> bool" where
  "inv_base w =
     ((\<forall>r. dones r (trace w) \<le> 1)
      \<and> (\<forall>r. length (heap w) \<le> r \<longrightarrow> dones r (trace w) = 0)
      \<and> (\<forall>k r. pending (client w) k = Some r \<longrightarrow> r < length (heap w))
      \<and> (\<forall>k k' r. pending (client w) k = Some r \<longrightarrow> pending (client w) k' = Some r
            \<longrightarrow> k = k'))"

definition inv_live :: "world \<Rightarrow> bool" where
  "inv_live w =
     (inv_base w \<and> (\<forall>k r. pending (client w) k = Some r \<longrightarrow> dones r (trace w) = 0))"

text \<open>A handler as \<^verbatim>\<open>addHandler\<close> stores it, for \<open>GoRPC_Cancel\<close>.\<close>

definition sample_handler :: handler where
  "sample_handler = \<lparr>fn = GoRPC_Cancel, argType = ins GoRPC_Cancel ! 1,
                      replyType = ins GoRPC_Cancel ! 2\<rparr>"

subsection \<open>Sample worlds\<close>

text \<open>A world with one call record, whose \<^verbatim>\<open>seq\<close> is \<open>s\<close>, and its channel of capacity 2,
  around a new client.\<close>

definition world_one_call :: "uint64 \<Rightarrow> world" where
  "world_one_call s =
     \<lparr>client = Client_literal,
      heap = [\<lparr>call_Method = ''add'', call_Args = IInt 1, call_Reply = IPtr (IInt 0),
               call_Error = None, call_Done = 0, call_seq = s\<rparr>],
      chans = [\<lparr>chan_cap = 2, chan_buf = []\<rparr>],
      trace = []\<rparr>"

text \<open>The same world after \<^verbatim>\<open>send\<close> has written the call's request, and after the response to
  it has arrived as well.\<close>

definition world_sent :: world where
  "world_sent = send 0 None (world_one_call 0)"

definition world_answered :: world where
  "world_answered =
     snd (readResponse \<lparr>resp_Seq = 1, resp_Error = []\<rparr> (Inr (IInt 3)) world_sent)"

text \<open>Two calls made with \<^verbatim>\<open>Go\<close> on one channel of capacity 1 that the caller made, both
  written and waiting for their responses.\<close>

definition world_shared :: world where
  "world_shared =
     (case run (new_world Client_literal)
             [AMakeChan 1, AGo ''a'' (IInt 1) INil (Some 0) None,
              AGo ''b'' (IInt 2) INil (Some 0) None] of
        Inl p \<Rightarrow> new_world Client_literal
      | Inr w \<Rightarrow> w)"

text \<open>The world of one call with \<^verbatim>\<open>send\<close> inside its write: the call is registered under seq
  1 and the request is on its way. And the same world when, during that write, the reader
  has read an error response for seq 1.\<close>

definition world_writing :: world where
  "world_writing = send_write 0 1 (snd (send_register 0 (world_one_call 0)))"

definition world_racing :: world where
  "world_racing =
     snd (readResponse \<lparr>resp_Seq = 1, resp_Error = ''reading body EOF''\<rparr> (Inr INil)
            world_writing)"

subsection \<open>Runs in which the write of a request is a step of its own\<close>

text \<open>
  \<^verbatim>\<open>send\<close> holds the send lock from its first line to its return, and the table lock only
  while it registers the call and while it removes it after a failed write: while
  \<^verbatim>\<open>WriteRequest\<close> runs, the reader and the cancellation branch of \<^verbatim>\<open>Call\<close>, which take the table
  lock only, can run. The runs below split \<^verbatim>\<open>Go\<close> there.

  \<open>Go_alloc\<close> is \<^verbatim>\<open>Go\<close> up to its call of \<^verbatim>\<open>send\<close>; \<open>Call_ctxDone_remove\<close> is the branch
  \<^verbatim>\<open>case <-ctx.Done()\<close> of \<^verbatim>\<open>Call\<close> up to the release of the table lock, returning \<^verbatim>\<open>seq\<close> and
  \<^verbatim>\<open>ok\<close>.
\<close>

definition Go_alloc ::
  "string \<Rightarrow> iface \<Rightarrow> iface \<Rightarrow> chan_ref option \<Rightarrow> world \<Rightarrow> panic + (call_ref \<times> world)" where
  "Go_alloc method args reply dn w =
     (let call = length (heap w);
          new = \<lparr>call_Method = method, call_Args = args, call_Reply = reply,
                 call_Error = None, call_Done = 0, call_seq = 0\<rparr>
      in case dn of
           None \<Rightarrow>
             (let ch = length (chans w);
                  w1 = w\<lparr>chans := chans w @ [\<lparr>chan_cap = 10, chan_buf = []\<rparr>],
                         heap := heap w @ [new\<lparr>call_Done := ch\<rparr>]\<rparr>
              in Inr (call, w1))
         | Some ch \<Rightarrow>
             if chan_cap (chans w ! ch) = 0
             then Inl (Panic ''birpc: done channel is unbuffered'')
             else Inr (call, w\<lparr>heap := heap w @ [new\<lparr>call_Done := ch\<rparr>]\<rparr>))"

definition Call_ctxDone_remove :: "call_ref \<Rightarrow> world \<Rightarrow> (uint64 \<times> bool) \<times> world" where
  "Call_ctxDone_remove call w0 =
     (let w = emit [Lock Mutex] w0;
          sq = call_seq (heap w ! call);
          ok = (pending (client w) sq \<noteq> None);
          w1 = w\<lparr>client := (client w)\<lparr>pending := (pending (client w))(sq := None)\<rparr>\<rparr>;
          w2 = (if sq = 0 then w1\<lparr>heap := (heap w1)[call := (heap w1 ! call)\<lparr>call_seq := 1\<rparr>]\<rparr>
                else w1)
      in ((sq, ok), emit [Unlock Mutex] w2))"

text \<open>
  A step is a whole operation (\<open>Whole\<close>, as in \<open>exec\<close>), or one of: \<open>SendBegin\<close>, \<^verbatim>\<open>Go\<close> up to
  the start of \<^verbatim>\<open>WriteRequest\<close> in \<^verbatim>\<open>send\<close> (all of \<^verbatim>\<open>Go\<close> when \<^verbatim>\<open>send\<close> returns before it writes);
  \<open>SendEnd\<close>, the return of that \<^verbatim>\<open>WriteRequest\<close> and the rest of \<^verbatim>\<open>send\<close>; \<open>CtxBegin\<close>, the
  cancellation branch of \<^verbatim>\<open>Call\<close> up to the release of the table lock (the \<^verbatim>\<open>Go\<close> of the cancel
  request, when there is one, is a later step of the run). Beside the world, the state of a
  run holds the local \<^verbatim>\<open>seq\<close> of the \<^verbatim>\<open>send\<close> that is inside its write, \<open>None\<close> when there is
  none. That \<^verbatim>\<open>send\<close> holds the send lock: a step that takes the send lock cannot happen until
  \<open>SendEnd\<close>, and leaves the state as it is.
\<close>

datatype step =
    Whole action
  | SendBegin string iface iface "chan_ref option"
  | SendEnd "error option"
  | CtxBegin call_ref

fun needs_sending :: "action \<Rightarrow> bool" where
  "needs_sending (AGo method args reply dn werr) = True"
| "needs_sending (ACall method args reply werr) = True"
| "needs_sending (ACtxDone call ctxErr werr) = True"
| "needs_sending (ANotify method args werr) = True"
| "needs_sending (AExit err ks) = True"
| "needs_sending a = False"

fun exec_step ::
  "step \<Rightarrow> world \<times> uint64 option \<Rightarrow> panic + (world \<times> uint64 option)" where
  "exec_step (Whole a) (w, fl) =
     (if fl \<noteq> None \<and> needs_sending a then Inr (w, fl)
      else (case exec a w of Inl p \<Rightarrow> Inl p | Inr w' \<Rightarrow> Inr (w', fl)))"
| "exec_step (SendBegin method args reply dn) (w, fl) =
     (if fl \<noteq> None \<or> \<not> (case dn of None \<Rightarrow> True | Some ch \<Rightarrow> ch < length (chans w))
      then Inr (w, fl)
      else
        (case Go_alloc method args reply dn w of
           Inl p \<Rightarrow> Inl p
         | Inr (call, w1) \<Rightarrow>
             (case send_register call w1 of
                (None, w2) \<Rightarrow> Inr (w2, None)
              | (Some sq, w2) \<Rightarrow> Inr (send_write call sq w2, Some sq))))"
| "exec_step (SendEnd werr) (w, fl) =
     (case fl of
        None \<Rightarrow> Inr (w, fl)
      | Some sq \<Rightarrow> Inr (send_finish sq werr w, None))"
| "exec_step (CtxBegin call) (w, fl) =
     (if valid_call call w then Inr (snd (Call_ctxDone_remove call w), fl) else Inr (w, fl))"

fun run_steps ::
  "world \<times> uint64 option \<Rightarrow> step list \<Rightarrow> panic + (world \<times> uint64 option)" where
  "run_steps s [] = Inr s"
| "run_steps s (a # as) = (case exec_step a s of Inl p \<Rightarrow> Inl p | Inr s' \<Rightarrow> run_steps s' as)"





text \<open>While a \<^verbatim>\<open>send\<close> is inside its write, \<^verbatim>\<open>done\<close> has not run on the call that the pending
  table holds under the seq of that \<^verbatim>\<open>send\<close>.\<close>

definition inv_writing :: "world \<Rightarrow> uint64 option \<Rightarrow> bool" where
  "inv_writing w fl =
     (\<forall>sq r. fl = Some sq \<longrightarrow> pending (client w) sq = Some r \<longrightarrow> dones r (trace w) = 0)"

section \<open>Properties\<close>

subsection \<open>Basic facts\<close>

lemma trace_emit: "trace (emit es w) = trace w @ es"
  by (simp add: emit_def)

lemma client_emit: "client (emit es w) = client w"
  by (simp add: emit_def)

lemma heap_emit: "heap (emit es w) = heap w"
  by (simp add: emit_def)

lemma chans_emit: "chans (emit es w) = chans w"
  by (simp add: emit_def)

lemma client_set_Error [simp]: "client (set_Error r e w) = client w"
  and chans_set_Error [simp]: "chans (set_Error r e w) = chans w"
  and trace_set_Error [simp]: "trace (set_Error r e w) = trace w"
  and length_heap_set_Error [simp]: "length (heap (set_Error r e w)) = length (heap w)"
  by (simp_all add: set_Error_def)

lemma heap_set_Error:
  "heap (set_Error r e w) = (heap w)[r := (heap w ! r)\<lparr>call_Error := Some e\<rparr>]"
  by (simp add: set_Error_def)

lemma client_call_done [simp]: "client (call_done r w) = client w"
  and heap_call_done [simp]: "heap (call_done r w) = heap w"
  and length_chans_call_done [simp]: "length (chans (call_done r w)) = length (chans w)"
  by (simp_all add: call_done_def Let_def emit_def)

lemma trace_call_done: "trace (call_done r w) = trace w @ [done_event r w]"
  by (simp add: call_done_def Let_def emit_def done_event_def)

lemmas emit_simps = trace_emit client_emit heap_emit chans_emit

lemma world_one_call_simps:
  "heap (world_one_call s) =
     [\<lparr>call_Method = ''add'', call_Args = IInt 1, call_Reply = IPtr (IInt 0),
       call_Error = None, call_Done = 0, call_seq = s\<rparr>]"
  "client (world_one_call s) = Client_literal"
  "chans (world_one_call s) = [\<lparr>chan_cap = 2, chan_buf = []\<rparr>]"
  "trace (world_one_call s) = []"
  by (simp_all add: world_one_call_def)

lemma Go_Some:
  "chan_cap (chans w ! ch) \<noteq> 0 \<Longrightarrow>
   Go method args reply (Some ch) werr w =
     Inr (length (heap w),
          send (length (heap w)) werr
            (w\<lparr>heap := heap w @ [\<lparr>call_Method = method, call_Args = args, call_Reply = reply,
                                  call_Error = None, call_Done = ch, call_seq = 0\<rparr>]\<rparr>))"
  by (simp add: Go_def Let_def)

lemma send_pending_cases:
  "pending (client (send r werr w)) k = Some x \<Longrightarrow> x = r \<or> pending (client w) k = Some x"
  by (auto simp: send_def send_register_def send_write_def send_finish_def Let_def emit_simps
      split: if_splits option.splits)

lemma world_sent_eq:
  "world_sent =
     \<lparr>client = Client_literal\<lparr>seq := 2, pending := [1 \<mapsto> 0],
               request := \<lparr>req_Seq = 1, req_Method = ''add''\<rparr>\<rparr>,
      heap = [\<lparr>call_Method = ''add'', call_Args = IInt 1, call_Reply = IPtr (IInt 0),
               call_Error = None, call_Done = 0, call_seq = 1\<rparr>],
      chans = [\<lparr>chan_cap = 2, chan_buf = []\<rparr>],
      trace = [Lock Sending, Lock Mutex, Assign 1 0, Unlock Mutex,
               WriteRequest \<lparr>req_Seq = 1, req_Method = ''add''\<rparr> (IInt 1), Unlock Sending]\<rparr>"
  by (simp add: world_sent_def world_one_call_def send_def send_register_def send_write_def
      send_finish_def Let_def emit_def Client_literal_def)

lemma world_answered_eq:
  "world_answered =
     \<lparr>client = Client_literal\<lparr>seq := 2, pending := Map.empty,
               request := \<lparr>req_Seq = 1, req_Method = ''add''\<rparr>\<rparr>,
      heap = [\<lparr>call_Method = ''add'', call_Args = IInt 1, call_Reply = IInt 3,
               call_Error = None, call_Done = 0, call_seq = 1\<rparr>],
      chans = [\<lparr>chan_cap = 2, chan_buf = [0]\<rparr>],
      trace = [Lock Sending, Lock Mutex, Assign 1 0, Unlock Mutex,
               WriteRequest \<lparr>req_Seq = 1, req_Method = ''add''\<rparr> (IInt 1), Unlock Sending,
               Lock Mutex, Unlock Mutex, ReadResponseBody (Some 0), ChanSend 0 0]\<rparr>"
  by (simp add: world_answered_def world_sent_eq readResponse_def Let_def emit_def
      Client_literal_def set_Reply_def call_done_def)

lemma world_shared_eq:
  "world_shared =
     \<lparr>client = Client_literal\<lparr>seq := 3, pending := [1 \<mapsto> 0, 2 \<mapsto> 1],
               request := \<lparr>req_Seq = 2, req_Method = ''b''\<rparr>\<rparr>,
      heap = [\<lparr>call_Method = ''a'', call_Args = IInt 1, call_Reply = INil,
               call_Error = None, call_Done = 0, call_seq = 1\<rparr>,
              \<lparr>call_Method = ''b'', call_Args = IInt 2, call_Reply = INil,
               call_Error = None, call_Done = 0, call_seq = 2\<rparr>],
      chans = [\<lparr>chan_cap = 1, chan_buf = []\<rparr>],
      trace = [Lock Sending, Lock Mutex, Assign 1 0, Unlock Mutex,
               WriteRequest \<lparr>req_Seq = 1, req_Method = ''a''\<rparr> (IInt 1), Unlock Sending,
               Lock Sending, Lock Mutex, Assign 2 1, Unlock Mutex,
               WriteRequest \<lparr>req_Seq = 2, req_Method = ''b''\<rparr> (IInt 2), Unlock Sending]\<rparr>"
  by (simp add: world_shared_def new_world_def Go_def send_def send_register_def send_write_def
      send_finish_def Let_def emit_def Client_literal_def)

lemma client_set_Reply [simp]: "client (set_Reply r v w) = client w"
  and chans_set_Reply [simp]: "chans (set_Reply r v w) = chans w"
  and trace_set_Reply [simp]: "trace (set_Reply r v w) = trace w"
  and length_heap_set_Reply [simp]: "length (heap (set_Reply r v w)) = length (heap w)"
  by (simp_all add: set_Reply_def)

lemma call_Done_set_Reply [simp]:
  "call_Done (heap (set_Reply r v w) ! r') = call_Done (heap w ! r')"
  by (cases "r < length (heap w)")
     (simp_all add: set_Reply_def nth_list_update list_update_beyond)

lemma call_seq_set_Reply [simp]:
  "call_seq (heap (set_Reply r v w) ! r') = call_seq (heap w ! r')"
  by (cases "r < length (heap w)")
     (simp_all add: set_Reply_def nth_list_update list_update_beyond)

lemma call_seq_set_Error [simp]:
  "call_seq (heap (set_Error r e w) ! r') = call_seq (heap w ! r')"
  by (cases "r < length (heap w)")
     (simp_all add: heap_set_Error nth_list_update list_update_beyond)

subsection \<open>Unknown methods\<close>

text \<open>
  C6. An inbound request whose method has no registered handler is answered with one
  response frame that carries the request's seq and the error string
  \<^verbatim>\<open>birpc: can't find method <name>\<close>; the request body is not read
  (\<^verbatim>\<open>ReadRequestBody\<close> is not among the codec calls made for the request).
\<close>

theorem readRequest_unknown_method:
  assumes "handlers (client w) (req_Method req) = None"
  shows "(\<exists>b. trace (snd (readRequest req body wres w)) =
              trace w @ [WriteResponse
                \<lparr>resp_Seq = req_Seq req,
                 resp_Error = ''birpc: can't find method '' @ req_Method req\<rparr> b])
         \<and> ReadRequestBody \<notin>
             set (drop (length (trace w)) (trace (snd (readRequest req body wres w))))"
  using assms by (simp add: readRequest_def Let_def trace_emit)

theorem readRequest_unknown_method_witness:
  "handlers (client (new_world Client_literal))
     (req_Method \<lparr>req_Seq = 7, req_Method = ''foo''\<rparr>) = None
   \<and> (\<exists>b. trace (snd (readRequest \<lparr>req_Seq = 7, req_Method = ''foo''\<rparr> (Inr (IInt 1)) None
                       (new_world Client_literal))) =
          [WriteResponse \<lparr>resp_Seq = 7, resp_Error = ''birpc: can't find method foo''\<rparr> b])
   \<and> ReadRequestBody \<notin>
       set (trace (snd (readRequest \<lparr>req_Seq = 7, req_Method = ''foo''\<rparr> (Inr (IInt 1)) None
                    (new_world Client_literal))))"
  using readRequest_unknown_method
    [of "new_world Client_literal" "\<lparr>req_Seq = 7, req_Method = ''foo''\<rparr>" "Inr (IInt 1)" None]
  by (simp add: new_world_def Client_literal_def)

text \<open>
  C10. For a request with an unknown method, the body written with the synthesized
  response is the \<^verbatim>\<open>Response\<close> header value itself, the struct that holds the request's seq
  and the error string \<^verbatim>\<open>birpc: can't find method <name>\<close>: \<^verbatim>\<open>WriteResponse\<close> gets that same
  value as header and as body, and it is the only codec call made.
\<close>

theorem readRequest_unknown_method_body:
  assumes "handlers (client w) (req_Method req) = None"
  shows "trace (snd (readRequest req body wres w)) =
           trace w @
           [WriteResponse
              \<lparr>resp_Seq = req_Seq req,
               resp_Error = ''birpc: can't find method '' @ req_Method req\<rparr>
              (IResponse
                 \<lparr>resp_Seq = req_Seq req,
                  resp_Error = ''birpc: can't find method '' @ req_Method req\<rparr>)]"
  using assms by (simp add: readRequest_def Let_def trace_emit)

theorem readRequest_unknown_method_body_witness:
  "handlers (client (new_world Client_literal))
     (req_Method \<lparr>req_Seq = 3, req_Method = ''bar''\<rparr>) = None
   \<and> trace (snd (readRequest \<lparr>req_Seq = 3, req_Method = ''bar''\<rparr> (Inl EOF) None
                  (new_world Client_literal))) =
       [WriteResponse \<lparr>resp_Seq = 3, resp_Error = ''birpc: can't find method bar''\<rparr>
          (IResponse \<lparr>resp_Seq = 3, resp_Error = ''birpc: can't find method bar''\<rparr>)]"
  using readRequest_unknown_method_body
    [of "new_world Client_literal" "\<lparr>req_Seq = 3, req_Method = ''bar''\<rparr>" "Inl EOF" None]
  by (simp add: new_world_def Client_literal_def)

subsection \<open>The cancel service on client and server peers\<close>

text \<open>A peer made by \<^verbatim>\<open>NewClientWithCodec\<close> has the cancel service registered.\<close>

lemma NewClientWithCodec_has_Cancel:
  "NewClientWithCodec cancel = Inr c \<Longrightarrow> handlers c ''_goRPC_.Cancel'' \<noteq> None"
  by (auto simp: NewClientWithCodec_def Handle_def addHandler_def split: if_splits sum.splits)

lemma NewClientWithCodec_GoRPC_Cancel:
  "(case NewClientWithCodec GoRPC_Cancel of
      Inl p \<Rightarrow> False
    | Inr c \<Rightarrow> handlers c ''_goRPC_.Cancel'' \<noteq> None)"
  by (simp add: NewClientWithCodec_def Handle_def addHandler_def Client_literal_def
      GoRPC_Cancel_def typeOfCtx_def typeOfError_def)

text \<open>
  C1. The claim: on every peer, also one the server creates for an accepted connection
  with \<^verbatim>\<open>ServeCodecWithState\<close>, the lookup of \<^verbatim>\<open>_goRPC_.Cancel\<close> in the peer's handler map
  succeeds. The code at a server that registered nothing: \<^verbatim>\<open>ServeCodecWithState\<close> replaces the
  handler map \<^verbatim>\<open>NewClientWithCodec\<close> filled by the server's own map, and the lookup of
  \<^verbatim>\<open>_goRPC_.Cancel\<close> on the peer fails.
\<close>

theorem ServeCodecWithState_peer_lacks_Cancel:
  "(case ServeCodecWithState_peer NewServer None GoRPC_Cancel of
      Inl p \<Rightarrow> False
    | Inr c \<Rightarrow> handlers c ''_goRPC_.Cancel'' = None)"
  by (simp add: ServeCodecWithState_peer_def NewServer_def NewClientWithCodec_def Handle_def
      addHandler_def Client_literal_def GoRPC_Cancel_def typeOfCtx_def typeOfError_def)

subsection \<open>Notifications\<close>

text \<open>\<^verbatim>\<open>Notify\<close> leaves the pending table as it is; what it writes is a request with seq 0,
  and it writes nothing once the engine is shut down or closing.\<close>

lemma Notify_effect:
  "pending (client (snd (Notify method args werr w))) = pending (client w)
   \<and> seq (client (snd (Notify method args werr w))) = seq (client w)
   \<and> trace (snd (Notify method args werr w)) = trace w @
       (if shutdown (client w) \<or> closing (client w) then [Lock Sending, Unlock Sending]
        else [Lock Sending, WriteRequest \<lparr>req_Seq = 0, req_Method = method\<rparr> args,
              Unlock Sending])"
  by (simp add: Notify_def Let_def emit_def)

text \<open>\<^verbatim>\<open>handleRequest\<close> writes no response for a request with seq 0.\<close>

lemma handleRequest_notification:
  "req_Seq req = 0 \<Longrightarrow>
   WriteResponse resp b \<notin>
     set (drop (length (trace w)) (trace (handleRequest req method argv wres w)))"
  by (simp add: handleRequest_def Let_def emit_def split: prod.splits iface.splits)

text \<open>
  C8. The claim: on the handling side a request with seq 0 produces no response frame. The
  code at a notification for a method that has no handler: \<^verbatim>\<open>readRequest\<close> writes a response
  frame with seq 0 and the unknown-method error; the check \<^verbatim>\<open>req.Seq == 0\<close> is made in
  \<^verbatim>\<open>handleRequest\<close> only.
\<close>

theorem readRequest_answers_unknown_notification:
  "trace (snd (readRequest \<lparr>req_Seq = 0, req_Method = ''nosuch''\<rparr> (Inr (IInt 6)) None
                 (new_world Client_literal))) =
     [WriteResponse \<lparr>resp_Seq = 0, resp_Error = ''birpc: can't find method nosuch''\<rparr>
        (IResponse \<lparr>resp_Seq = 0, resp_Error = ''birpc: can't find method nosuch''\<rparr>)]"
  by (simp add: readRequest_def new_world_def Client_literal_def emit_def Let_def)

subsection \<open>send\<close>

text \<open>The three parts of \<^verbatim>\<open>send\<close>, each for every world it can start in. While the request is
  written the table lock is free, so the world in which the write returns (\<open>v\<close> below) need
  not be the one the registration left: the reader may have taken the entry out.\<close>

lemma done_event_set_Error [simp]: "done_event r (set_Error r' e w) = done_event r w"
  by (cases "r' < length (heap w)")
     (simp_all add: done_event_def Let_def heap_set_Error nth_list_update list_update_beyond)

lemma done_event_emit [simp]: "done_event r (emit es w) = done_event r w"
  by (simp add: done_event_def Let_def emit_simps)

lemma done_event_client [simp]: "done_event r (w\<lparr>client := c\<rparr>) = done_event r w"
  by (simp add: done_event_def Let_def)

lemma send_register_cases:
  "(if shutdown (client w) \<or> closing (client w) then
      fst (send_register call w) = None
      \<and> client (snd (send_register call w)) = client w
      \<and> heap (snd (send_register call w)) =
          (heap w)[call := (heap w ! call)\<lparr>call_Error := Some ErrShutdown\<rparr>]
      \<and> trace (snd (send_register call w)) =
          trace w @ [Lock Sending, Lock Mutex, Unlock Mutex, done_event call w, Unlock Sending]
    else if call_seq (heap w ! call) \<noteq> 0 then
      fst (send_register call w) = None
      \<and> client (snd (send_register call w)) = client w
      \<and> heap (snd (send_register call w)) =
          (heap w)[call := (heap w ! call)\<lparr>call_Error := Some Canceled\<rparr>]
      \<and> trace (snd (send_register call w)) =
          trace w @ [Lock Sending, Lock Mutex, Unlock Mutex, done_event call w, Unlock Sending]
    else
      fst (send_register call w) = Some (seq (client w))
      \<and> seq (client (snd (send_register call w))) = seq (client w) + 1
      \<and> pending (client (snd (send_register call w))) =
          (pending (client w))(seq (client w) \<mapsto> call)
      \<and> heap (snd (send_register call w)) =
          (heap w)[call := (heap w ! call)\<lparr>call_seq := seq (client w)\<rparr>]
      \<and> trace (snd (send_register call w)) =
          trace w @ [Lock Sending, Lock Mutex, Assign (seq (client w)) call, Unlock Mutex])"
  by (simp add: send_register_def Let_def emit_simps trace_call_done heap_set_Error)

lemma send_write_effect:
  "trace (send_write call sq v) =
     trace v @ [WriteRequest \<lparr>req_Seq = sq, req_Method = call_Method (heap v ! call)\<rparr>
                 (call_Args (heap v ! call))]
   \<and> pending (client (send_write call sq v)) = pending (client v)
   \<and> heap (send_write call sq v) = heap v \<and> chans (send_write call sq v) = chans v"
  by (simp add: send_write_def Let_def emit_simps)

lemma send_finish_effect:
  "send_finish sq None v = emit [Unlock Sending] v
   \<and> pending (client (send_finish sq (Some err) v)) = (pending (client v))(sq := None)
   \<and> (case pending (client v) sq of
         None \<Rightarrow>
           heap (send_finish sq (Some err) v) = heap v
           \<and> chans (send_finish sq (Some err) v) = chans v
           \<and> trace (send_finish sq (Some err) v) =
               trace v @ [Lock Mutex, Unlock Mutex, Unlock Sending]
       | Some r \<Rightarrow>
           heap (send_finish sq (Some err) v) =
             (heap v)[r := (heap v ! r)\<lparr>call_Error := Some err\<rparr>]
           \<and> trace (send_finish sq (Some err) v) =
               trace v @ [Lock Mutex, Unlock Mutex, done_event r v, Unlock Sending])"
  by (simp add: send_finish_def Let_def emit_simps trace_call_done heap_set_Error
      split: option.splits)

lemma world_writing_eq:
  "world_writing =
     \<lparr>client = Client_literal\<lparr>seq := 2, pending := [1 \<mapsto> 0],
               request := \<lparr>req_Seq = 1, req_Method = ''add''\<rparr>\<rparr>,
      heap = [\<lparr>call_Method = ''add'', call_Args = IInt 1, call_Reply = IPtr (IInt 0),
               call_Error = None, call_Done = 0, call_seq = 1\<rparr>],
      chans = [\<lparr>chan_cap = 2, chan_buf = []\<rparr>],
      trace = [Lock Sending, Lock Mutex, Assign 1 0, Unlock Mutex,
               WriteRequest \<lparr>req_Seq = 1, req_Method = ''add''\<rparr> (IInt 1)]\<rparr>"
  by (simp add: world_writing_def world_one_call_def send_register_def send_write_def
      Let_def emit_def Client_literal_def)

lemma world_racing_eq:
  "world_racing =
     \<lparr>client = Client_literal\<lparr>seq := 2, pending := Map.empty,
               request := \<lparr>req_Seq = 1, req_Method = ''add''\<rparr>\<rparr>,
      heap = [\<lparr>call_Method = ''add'', call_Args = IInt 1, call_Reply = IPtr (IInt 0),
               call_Error = Some (ServerError ''reading body EOF''), call_Done = 0,
               call_seq = 1\<rparr>],
      chans = [\<lparr>chan_cap = 2, chan_buf = [0]\<rparr>],
      trace = [Lock Sending, Lock Mutex, Assign 1 0, Unlock Mutex,
               WriteRequest \<lparr>req_Seq = 1, req_Method = ''add''\<rparr> (IInt 1),
               Lock Mutex, Unlock Mutex, ReadResponseBody None, ChanSend 0 0]\<rparr>"
  by (simp add: world_racing_def world_writing_eq readResponse_def Let_def emit_def
      Client_literal_def set_Error_def call_done_def wrap_body_error_def)

text \<open>
  C3 (as amended). \<^verbatim>\<open>send(call)\<close>: on an engine that is shut down or closing the call is
  completed with \<^verbatim>\<open>ErrShutdown\<close>. Otherwise, if \<^verbatim>\<open>call.seq\<close> is not zero on entry, the call is
  completed with the cancellation error and neither the client (so neither the pending
  table) nor the wire is touched; if it is zero, the next seq is assigned and the call
  stored under it in the pending table under both locks, and then the request is written
  under the send lock. If the write fails, the entry for that seq is removed from the
  pending table, and the call found under that seq is completed with the write error; when
  the entry is gone already, no call is completed and the write error is dropped. When
  nothing comes between the registration and the end of the write, the call found is the
  call itself. (Completed with an error: the error is stored in the call and \<^verbatim>\<open>done\<close> runs on
  it.)
\<close>

theorem send_behaviour:
  "(if shutdown (client w) \<or> closing (client w) then
      fst (send_register call w) = None
      \<and> client (snd (send_register call w)) = client w
      \<and> heap (snd (send_register call w)) =
          (heap w)[call := (heap w ! call)\<lparr>call_Error := Some ErrShutdown\<rparr>]
      \<and> trace (snd (send_register call w)) =
          trace w @ [Lock Sending, Lock Mutex, Unlock Mutex, done_event call w, Unlock Sending]
    else if call_seq (heap w ! call) \<noteq> 0 then
      fst (send_register call w) = None
      \<and> client (snd (send_register call w)) = client w
      \<and> heap (snd (send_register call w)) =
          (heap w)[call := (heap w ! call)\<lparr>call_Error := Some Canceled\<rparr>]
      \<and> trace (snd (send_register call w)) =
          trace w @ [Lock Sending, Lock Mutex, Unlock Mutex, done_event call w, Unlock Sending]
    else
      fst (send_register call w) = Some (seq (client w))
      \<and> seq (client (snd (send_register call w))) = seq (client w) + 1
      \<and> pending (client (snd (send_register call w))) =
          (pending (client w))(seq (client w) \<mapsto> call)
      \<and> heap (snd (send_register call w)) =
          (heap w)[call := (heap w ! call)\<lparr>call_seq := seq (client w)\<rparr>]
      \<and> trace (snd (send_register call w)) =
          trace w @ [Lock Sending, Lock Mutex, Assign (seq (client w)) call, Unlock Mutex])
   \<and> trace (send_write call sq v) =
       trace v @ [WriteRequest \<lparr>req_Seq = sq, req_Method = call_Method (heap v ! call)\<rparr>
                   (call_Args (heap v ! call))]
   \<and> pending (client (send_write call sq v)) = pending (client v)
   \<and> heap (send_write call sq v) = heap v
   \<and> send_finish sq None v = emit [Unlock Sending] v
   \<and> pending (client (send_finish sq (Some err) v)) = (pending (client v))(sq := None)
   \<and> (case pending (client v) sq of
         None \<Rightarrow>
           heap (send_finish sq (Some err) v) = heap v
           \<and> chans (send_finish sq (Some err) v) = chans v
           \<and> trace (send_finish sq (Some err) v) =
               trace v @ [Lock Mutex, Unlock Mutex, Unlock Sending]
       | Some r \<Rightarrow>
           heap (send_finish sq (Some err) v) =
             (heap v)[r := (heap v ! r)\<lparr>call_Error := Some err\<rparr>]
           \<and> trace (send_finish sq (Some err) v) =
               trace v @ [Lock Mutex, Unlock Mutex, done_event r v, Unlock Sending])
   \<and> send call werr w =
       (case send_register call w of
          (None, w1) \<Rightarrow> w1
        | (Some s, w1) \<Rightarrow> send_finish s werr (send_write call s w1))
   \<and> (if shutdown (client w) \<or> closing (client w) \<or> call_seq (heap w ! call) \<noteq> 0
       then send call werr w = snd (send_register call w)
       else pending (client (send call None w)) = (pending (client w))(seq (client w) \<mapsto> call)
          \<and> trace (send call None w) =
              trace w @ [Lock Sending, Lock Mutex, Assign (seq (client w)) call, Unlock Mutex,
                WriteRequest \<lparr>req_Seq = seq (client w), req_Method = call_Method (heap w ! call)\<rparr>
                  (call_Args (heap w ! call)),
                Unlock Sending]
          \<and> pending (client (send call (Some err) w)) =
              (pending (client w))(seq (client w) := None)
          \<and> heap (send call (Some err) w) =
              (heap w)[call := (heap w ! call)\<lparr>call_seq := seq (client w),
                                                call_Error := Some err\<rparr>]
          \<and> trace (send call (Some err) w) =
              trace w @ [Lock Sending, Lock Mutex, Assign (seq (client w)) call, Unlock Mutex,
                WriteRequest \<lparr>req_Seq = seq (client w), req_Method = call_Method (heap w ! call)\<rparr>
                  (call_Args (heap w ! call)),
                Lock Mutex, Unlock Mutex, done_event call w, Unlock Sending])"
proof -
  have u: "shutdown (client w) \<or> closing (client w) \<or> call_seq (heap w ! call) \<noteq> 0
           \<Longrightarrow> send call werr w = snd (send_register call w)"
    by (auto simp: send_def send_register_def Let_def emit_simps)
  have ok: "pending (client (send call None w)) = (pending (client w))(seq (client w) \<mapsto> call)
          \<and> trace (send call None w) =
              trace w @ [Lock Sending, Lock Mutex, Assign (seq (client w)) call, Unlock Mutex,
                WriteRequest \<lparr>req_Seq = seq (client w), req_Method = call_Method (heap w ! call)\<rparr>
                  (call_Args (heap w ! call)),
                Unlock Sending]"
    if "\<not> shutdown (client w)" "\<not> closing (client w)" "call_seq (heap w ! call) = 0"
  proof (cases "call < length (heap w)")
    case True
    with that show ?thesis
      by (simp add: send_def send_register_def send_write_def send_finish_def Let_def emit_simps)
  next
    case False
    with that show ?thesis
      by (simp add: send_def send_register_def send_write_def send_finish_def Let_def emit_simps
          list_update_beyond)
  qed
  have fl: "pending (client (send call (Some err) w)) =
              (pending (client w))(seq (client w) := None)
          \<and> heap (send call (Some err) w) =
              (heap w)[call := (heap w ! call)\<lparr>call_seq := seq (client w),
                                                call_Error := Some err\<rparr>]
          \<and> trace (send call (Some err) w) =
              trace w @ [Lock Sending, Lock Mutex, Assign (seq (client w)) call, Unlock Mutex,
                WriteRequest \<lparr>req_Seq = seq (client w), req_Method = call_Method (heap w ! call)\<rparr>
                  (call_Args (heap w ! call)),
                Lock Mutex, Unlock Mutex, done_event call w, Unlock Sending]"
    if "\<not> shutdown (client w)" "\<not> closing (client w)" "call_seq (heap w ! call) = 0"
  proof (cases "call < length (heap w)")
    case True
    with that show ?thesis
      by (simp add: send_def send_register_def send_write_def send_finish_def Let_def emit_simps
          trace_call_done heap_set_Error done_event_def)
  next
    case False
    with that show ?thesis
      by (simp add: send_def send_register_def send_write_def send_finish_def Let_def emit_simps
          trace_call_done heap_set_Error done_event_def list_update_beyond)
  qed
  have c: "send call werr w =
       (case send_register call w of
          (None, w1) \<Rightarrow> w1
        | (Some s, w1) \<Rightarrow> send_finish s werr (send_write call s w1))"
    by (simp add: send_def)
  have E: "if shutdown (client w) \<or> closing (client w) \<or> call_seq (heap w ! call) \<noteq> 0
       then send call werr w = snd (send_register call w)
       else pending (client (send call None w)) = (pending (client w))(seq (client w) \<mapsto> call)
          \<and> trace (send call None w) =
              trace w @ [Lock Sending, Lock Mutex, Assign (seq (client w)) call, Unlock Mutex,
                WriteRequest \<lparr>req_Seq = seq (client w), req_Method = call_Method (heap w ! call)\<rparr>
                  (call_Args (heap w ! call)),
                Unlock Sending]
          \<and> pending (client (send call (Some err) w)) =
              (pending (client w))(seq (client w) := None)
          \<and> heap (send call (Some err) w) =
              (heap w)[call := (heap w ! call)\<lparr>call_seq := seq (client w),
                                                call_Error := Some err\<rparr>]
          \<and> trace (send call (Some err) w) =
              trace w @ [Lock Sending, Lock Mutex, Assign (seq (client w)) call, Unlock Mutex,
                WriteRequest \<lparr>req_Seq = seq (client w), req_Method = call_Method (heap w ! call)\<rparr>
                  (call_Args (heap w ! call)),
                Lock Mutex, Unlock Mutex, done_event call w, Unlock Sending]"
  proof (cases "shutdown (client w) \<or> closing (client w) \<or> call_seq (heap w ! call) \<noteq> 0")
    case True
    from u [OF True] True show ?thesis by (simp only: if_True)
  next
    case False
    then have n: "\<not> shutdown (client w)" "\<not> closing (client w)" "call_seq (heap w ! call) = 0"
      by simp_all
    from ok [OF n] fl [OF n] False show ?thesis by (simp only: if_False simp_thms)
  qed
  note A = send_register_cases [of w call]
  note B = send_write_effect [of call sq v]
  note C = send_finish_effect [of sq v err]
  show ?thesis
    by (intro conjI)
       (rule A, rule B [THEN conjunct1], rule B [THEN conjunct2, THEN conjunct1],
        rule B [THEN conjunct2, THEN conjunct2, THEN conjunct1],
        rule C [THEN conjunct1], rule C [THEN conjunct2, THEN conjunct1],
        rule C [THEN conjunct2, THEN conjunct2], rule c, rule E)
qed

theorem send_behaviour_witness:
  "fst (send_register 0 (world_one_call 0)) = Some 1
   \<and> pending (client (snd (send_register 0 (world_one_call 0)))) 1 = Some 0
   \<and> pending (client world_writing) 1 = Some 0
   \<and> pending (client (send_finish 1 (Some EOF) world_writing)) 1 = None
   \<and> call_Error (heap (send_finish 1 (Some EOF) world_writing) ! 0) = Some EOF
   \<and> trace (send_finish 1 (Some EOF) world_writing) =
       [Lock Sending, Lock Mutex, Assign 1 0, Unlock Mutex,
        WriteRequest \<lparr>req_Seq = 1, req_Method = ''add''\<rparr> (IInt 1),
        Lock Mutex, Unlock Mutex, ChanSend 0 0, Unlock Sending]
   \<and> call_Error (heap (snd (send_register 0 (world_one_call 7))) ! 0) = Some Canceled
   \<and> trace (snd (send_register 0 (world_one_call 7))) =
       [Lock Sending, Lock Mutex, Unlock Mutex, ChanSend 0 0, Unlock Sending]"
  using send_behaviour [of "world_one_call 0" 0 1 world_writing EOF "Some EOF"]
        send_behaviour [of "world_one_call 7" 0 1 world_writing EOF None]
  by (simp add: world_one_call_simps world_writing_eq Client_literal_def done_event_def)

text \<open>
  The claim as stated completes the call with the write error whenever the write fails.
  \<^verbatim>\<open>send\<close> holds only the send lock while it writes, and \<^verbatim>\<open>readResponse\<close> needs only the table
  lock: when an error response for the seq is read before the failed write returns, the
  reader completes the call and removes the entry, \<^verbatim>\<open>send\<close> finds no call under the seq
  (\<^verbatim>\<open>if call != nil\<close>), and the write error reaches no call.
\<close>

theorem send_write_error_dropped:
  "fst (send_register 0 (world_one_call 0)) = Some 1
   \<and> world_writing = send_write 0 1 (snd (send_register 0 (world_one_call 0)))
   \<and> pending (client world_writing) 1 = Some 0
   \<and> world_racing =
       snd (readResponse \<lparr>resp_Seq = 1, resp_Error = ''reading body EOF''\<rparr> (Inr INil)
              world_writing)
   \<and> pending (client world_racing) 1 = None
   \<and> call_Error (heap (send_finish 1 (Some EOF) world_racing) ! 0) =
       Some (ServerError ''reading body EOF'')
   \<and> call_Error (heap (send_finish 1 (Some EOF) world_racing) ! 0) \<noteq> Some EOF
   \<and> trace (send_finish 1 (Some EOF) world_racing) =
       [Lock Sending, Lock Mutex, Assign 1 0, Unlock Mutex,
        WriteRequest \<lparr>req_Seq = 1, req_Method = ''add''\<rparr> (IInt 1),
        Lock Mutex, Unlock Mutex, ReadResponseBody None, ChanSend 0 0,
        Lock Mutex, Unlock Mutex, Unlock Sending]"
proof (intro conjI)
  show "fst (send_register 0 (world_one_call 0)) = Some 1"
    by (simp add: world_one_call_def send_register_def Let_def emit_def Client_literal_def)
  show "world_writing = send_write 0 1 (snd (send_register 0 (world_one_call 0)))"
    by (rule world_writing_def)
  show "pending (client world_writing) 1 = Some 0"
    by (simp add: world_writing_eq)
  show "world_racing =
       snd (readResponse \<lparr>resp_Seq = 1, resp_Error = ''reading body EOF''\<rparr> (Inr INil)
              world_writing)"
    by (rule world_racing_def)
  show "pending (client world_racing) 1 = None"
    by (simp add: world_racing_eq)
  show "call_Error (heap (send_finish 1 (Some EOF) world_racing) ! 0) =
       Some (ServerError ''reading body EOF'')"
    by (simp add: world_racing_eq send_finish_def Let_def emit_def)
  then show "call_Error (heap (send_finish 1 (Some EOF) world_racing) ! 0) \<noteq> Some EOF"
    by simp
  show "trace (send_finish 1 (Some EOF) world_racing) =
       [Lock Sending, Lock Mutex, Assign 1 0, Unlock Mutex,
        WriteRequest \<lparr>req_Seq = 1, req_Method = ''add''\<rparr> (IInt 1),
        Lock Mutex, Unlock Mutex, ReadResponseBody None, ChanSend 0 0,
        Lock Mutex, Unlock Mutex, Unlock Sending]"
    by (simp add: world_racing_eq send_finish_def Let_def emit_def)
qed

subsection \<open>Call: cancellation wins\<close>

text \<open>
  C4 (as amended). When the context's cancellation wins in \<^verbatim>\<open>Call\<close>: the entry under the
  call's seq no longer holds the call, and the value returned is the context's error. If the
  call's seq is zero, the seq is stamped to 1 and no cancel request is made. If the seq is
  not zero and the call was still in the pending table, a cancel call
  \<^verbatim>\<open>_goRPC_.Cancel{seq}\<close> on the same channel is handed to \<^verbatim>\<open>send\<close>. If the seq is not zero
  and the entry was gone already, nothing but the mutex is touched: no cancel request is
  made.
\<close>

theorem Call_ctxDone_behaviour:
  assumes "call < length (heap w)"
    and "chan_cap (chans w ! call_Done (heap w ! call)) \<noteq> 0"
  shows "\<exists>w'. Call_ctxDone call ctxErr werr w = Inr (ctxErr, w')
     \<and> pending (client w') (call_seq (heap w ! call)) \<noteq> Some call
     \<and> (if call_seq (heap w ! call) = 0 then
           call_seq (heap w' ! call) = 1
           \<and> length (heap w') = length (heap w)
           \<and> trace w' = trace w @ [Lock Mutex, Unlock Mutex]
         else if pending (client w) (call_seq (heap w ! call)) = None then
           heap w' = heap w
           \<and> client w' = client w
           \<and> trace w' = trace w @ [Lock Mutex, Unlock Mutex]
         else
           w' = send (length (heap w)) werr
                  (w\<lparr>client := (client w)\<lparr>pending :=
                         (pending (client w))(call_seq (heap w ! call) := None)\<rparr>,
                      heap := heap w @
                        [\<lparr>call_Method = ''_goRPC_.Cancel'',
                          call_Args = IPtr (ICancelArgs (call_seq (heap w ! call))),
                          call_Reply = INil, call_Error = None,
                          call_Done = call_Done (heap w ! call), call_seq = 0\<rparr>],
                      trace := trace w @ [Lock Mutex, Unlock Mutex]\<rparr>))"
proof (cases "call_seq (heap w ! call) = 0")
  case True
  with assms show ?thesis
    by (simp add: Call_ctxDone_def Let_def emit_simps)
next
  case nz: False
  show ?thesis
  proof (cases "pending (client w) (call_seq (heap w ! call)) = None")
    case True
    with nz assms show ?thesis
      by (simp add: Call_ctxDone_def Let_def emit_simps emit_def fun_upd_idem)
  next
    case False
    define sq where "sq = call_seq (heap w ! call)"
    define W where "W = w\<lparr>client := (client w)\<lparr>pending := (pending (client w))(sq := None)\<rparr>,
                      heap := heap w @
                        [\<lparr>call_Method = ''_goRPC_.Cancel'',
                          call_Args = IPtr (ICancelArgs sq),
                          call_Reply = INil, call_Error = None,
                          call_Done = call_Done (heap w ! call), call_seq = 0\<rparr>],
                      trace := trace w @ [Lock Mutex, Unlock Mutex]\<rparr>"
    define W0 where "W0 = emit [Unlock Mutex]
        ((emit [Lock Mutex] w)\<lparr>client := (client w)\<lparr>pending := (pending (client w))(sq := None)\<rparr>\<rparr>)"
    have W0: "W0\<lparr>heap := heap w @ [\<lparr>call_Method = ''_goRPC_.Cancel'',
                          call_Args = IPtr (ICancelArgs sq),
                          call_Reply = INil, call_Error = None,
                          call_Done = call_Done (heap w ! call), call_seq = 0\<rparr>]\<rparr> = W"
      by (simp add: W0_def W_def emit_def)
    have cap: "chan_cap (chans W0 ! call_Done (heap w ! call)) \<noteq> 0"
      using assms by (simp add: W0_def emit_def)
    have hp: "heap W0 = heap w" by (simp add: W0_def emit_def)
    have res: "Call_ctxDone call ctxErr werr w = Inr (ctxErr, send (length (heap w)) werr W)"
      using nz False assms Go_Some [OF cap, of "''_goRPC_.Cancel''" "IPtr (ICancelArgs sq)" INil werr]
      by (simp add: Call_ctxDone_def Let_def emit_simps sq_def [symmetric] W0_def [symmetric] hp W0)
    have np: "pending (client (send (length (heap w)) werr W)) sq \<noteq> Some call"
    proof
      assume "pending (client (send (length (heap w)) werr W)) sq = Some call"
      from send_pending_cases [OF this] assms(1) show False
        by (simp add: W_def)
    qed
    show ?thesis
    proof (intro exI conjI)
      show "Call_ctxDone call ctxErr werr w = Inr (ctxErr, send (length (heap w)) werr W)"
        by (rule res)
      show "pending (client (send (length (heap w)) werr W)) (call_seq (heap w ! call)) \<noteq> Some call"
        using np by (simp add: sq_def)
      show "if call_seq (heap w ! call) = 0 then
           call_seq (heap (send (length (heap w)) werr W) ! call) = 1
           \<and> length (heap (send (length (heap w)) werr W)) = length (heap w)
           \<and> trace (send (length (heap w)) werr W) = trace w @ [Lock Mutex, Unlock Mutex]
         else if pending (client w) (call_seq (heap w ! call)) = None then
           heap (send (length (heap w)) werr W) = heap w
           \<and> client (send (length (heap w)) werr W) = client w
           \<and> trace (send (length (heap w)) werr W) = trace w @ [Lock Mutex, Unlock Mutex]
         else
           send (length (heap w)) werr W = send (length (heap w)) werr
                  (w\<lparr>client := (client w)\<lparr>pending :=
                         (pending (client w))(call_seq (heap w ! call) := None)\<rparr>,
                      heap := heap w @
                        [\<lparr>call_Method = ''_goRPC_.Cancel'',
                          call_Args = IPtr (ICancelArgs (call_seq (heap w ! call))),
                          call_Reply = INil, call_Error = None,
                          call_Done = call_Done (heap w ! call), call_seq = 0\<rparr>],
                      trace := trace w @ [Lock Mutex, Unlock Mutex]\<rparr>)"
        using nz False by (auto simp: W_def sq_def)
    qed
  qed
qed

theorem Call_ctxDone_behaviour_witness:
  "(0::nat) < length (heap (world_one_call 0))
   \<and> chan_cap (chans (world_one_call 0) ! call_Done (heap (world_one_call 0) ! 0)) \<noteq> 0
   \<and> (case Call_ctxDone 0 Canceled None (world_one_call 0) of
         Inl p \<Rightarrow> False
       | Inr (e, w') \<Rightarrow> e = Canceled \<and> call_seq (heap w' ! 0) = 1
                          \<and> trace w' = [Lock Mutex, Unlock Mutex])
   \<and> (0::nat) < length (heap world_sent)
   \<and> chan_cap (chans world_sent ! call_Done (heap world_sent ! 0)) \<noteq> 0
   \<and> (case Call_ctxDone 0 Canceled None world_sent of
         Inl p \<Rightarrow> False
       | Inr (e, w') \<Rightarrow> e = Canceled \<and> pending (client w') 1 \<noteq> Some 0
           \<and> call_Method (heap w' ! 1) = ''_goRPC_.Cancel''
           \<and> WriteRequest \<lparr>req_Seq = 2, req_Method = ''_goRPC_.Cancel''\<rparr>
                 (IPtr (ICancelArgs 1)) \<in> set (trace w'))"
  using Call_ctxDone_behaviour [of 0 "world_one_call 0" Canceled None]
        Call_ctxDone_behaviour [of 0 world_sent Canceled None]
  by (auto simp: world_one_call_simps world_sent_eq send_def send_register_def send_write_def
      send_finish_def Let_def emit_def Client_literal_def)

text \<open>
  The claim as stated issues the cancel request whenever the call's seq is not zero. The
  code asks for \<^verbatim>\<open>seq != 0 && ok\<close>: for a call whose response has arrived (its entry is
  gone), \<^verbatim>\<open>Call\<close> only takes and releases the mutex.
\<close>

theorem Call_ctxDone_answered_no_cancel:
  "call_seq (heap world_answered ! 0) = 1
   \<and> Call_ctxDone 0 Canceled None world_answered =
       Inr (Canceled, emit [Lock Mutex, Unlock Mutex] world_answered)"
  by (simp add: world_answered_eq Call_ctxDone_def Let_def emit_def Client_literal_def)

subsection \<open>The end of the read loop\<close>

text \<open>\<open>terminate_calls\<close> changes neither the client nor the number of calls and channels; its
  trace entries are those of \<^verbatim>\<open>done\<close>, one for every entry it visits; every call it visits
  ends with the error.\<close>

lemma chans_call_done:
  "chans (call_done r w) =
     (let ch = call_Done (heap w ! r); c = chans w ! ch in
      if length (chan_buf c) < chan_cap c then (chans w)[ch := c\<lparr>chan_buf := chan_buf c @ [r]\<rparr>]
      else chans w)"
  by (simp add: call_done_def Let_def emit_def)

lemma client_terminate_calls [simp]: "client (terminate_calls err ks w) = client w"
  by (induction ks arbitrary: w) (auto split: option.splits)

lemma length_heap_terminate_calls [simp]:
  "length (heap (terminate_calls err ks w)) = length (heap w)"
  by (induction ks arbitrary: w) (auto split: option.splits)

lemma length_chans_terminate_calls [simp]:
  "length (chans (terminate_calls err ks w)) = length (chans w)"
  by (induction ks arbitrary: w) (auto split: option.splits)

lemma trace_terminate_calls:
  "trace (terminate_calls err ks w) = trace w @ terminate_events err ks w"
  by (induction ks arbitrary: w) (auto split: option.splits simp: trace_call_done)

lemma is_strobe_done_event [simp]: "is_strobe (done_event r w)"
  by (simp add: done_event_def Let_def)

lemma is_done_done_event [simp]: "is_done r (done_event r w)"
  by (simp add: done_event_def Let_def)

lemma terminate_events_strobes: "\<forall>e\<in>set (terminate_events err ks w). is_strobe e"
  by (induction ks arbitrary: w) (auto split: option.splits)

lemma terminate_events_dones:
  "k \<in> set ks \<Longrightarrow> pending (client w) k = Some r \<Longrightarrow> 0 < dones r (terminate_events err ks w)"
  by (induction ks arbitrary: w) (auto split: option.splits simp: dones_def)

lemma call_Error_set_Error:
  "r' < length (heap w) \<Longrightarrow>
   call_Error (heap (set_Error r e w) ! r') = (if r' = r then Some e else call_Error (heap w ! r'))"
  by (simp add: heap_set_Error nth_list_update)

lemma terminate_calls_keeps_Error:
  "r < length (heap w) \<Longrightarrow> call_Error (heap w ! r) = Some err \<Longrightarrow>
   call_Error (heap (terminate_calls err ks w) ! r) = Some err"
  by (induction ks arbitrary: w) (auto split: option.splits simp: call_Error_set_Error)

lemma terminate_calls_Error:
  "k \<in> set ks \<Longrightarrow> pending (client w) k = Some r \<Longrightarrow> r < length (heap w) \<Longrightarrow>
   call_Error (heap (terminate_calls err ks w) ! r) = Some err"
proof (induction ks arbitrary: w)
  case Nil
  then show ?case by simp
next
  case (Cons a ks)
  show ?case
  proof (cases "a = k")
    case True
    with Cons.prems show ?thesis
      by (simp add: terminate_calls_keeps_Error call_Error_set_Error)
  next
    case False
    with Cons.prems have "k \<in> set ks" by simp
    with Cons.IH [of "w"] Cons.IH [of "call_done _ (set_Error _ err w)"] Cons.prems show ?thesis
      by (auto split: option.splits)
  qed
qed


lemma call_Done_set_Error [simp]:
  "call_Done (heap (set_Error r e w) ! r') = call_Done (heap w ! r')"
  by (cases "r < length (heap w)") (simp_all add: heap_set_Error nth_list_update list_update_beyond)

lemma waiting_on_step [simp]:
  "waiting_on ch ks (call_done r (set_Error r e w)) = waiting_on ch ks w"
  by (simp add: waiting_on_def cong: option.case_cong)

lemma waiting_on_Cons:
  "waiting_on ch (k # ks) w =
     (case pending (client w) k of
        None \<Rightarrow> waiting_on ch ks w
      | Some r \<Rightarrow> (if call_Done (heap w ! r) = ch then Suc (waiting_on ch ks w)
                   else waiting_on ch ks w))"
  by (simp add: waiting_on_def split: option.splits)

lemma done_event_room:
  "length (chan_buf (chans w ! call_Done (heap w ! r))) < chan_cap (chans w ! call_Done (heap w ! r))
   \<Longrightarrow> done_event r w = ChanSend r (call_Done (heap w ! r))"
  by (simp add: done_event_def Let_def)

lemma chan_buf_call_done:
  "ch < length (chans w) \<Longrightarrow>
   length (chan_buf (chans (call_done r w) ! ch)) \<le>
     length (chan_buf (chans w ! ch)) + (if call_Done (heap w ! r) = ch then 1 else 0)"
  by (simp add: chans_call_done Let_def nth_list_update)

lemma chan_cap_call_done [simp]:
  "chan_cap (chans (call_done r w) ! ch) = chan_cap (chans w ! ch)"
  by (cases "call_Done (heap w ! r) < length (chans w)")
     (simp_all add: chans_call_done Let_def nth_list_update list_update_beyond)

lemma terminate_events_delivered:
  assumes "\<forall>k r. pending (client w) k = Some r \<longrightarrow> call_Done (heap w ! r) < length (chans w)"
    and "\<forall>ch < length (chans w).
           length (chan_buf (chans w ! ch)) + waiting_on ch ks w \<le> chan_cap (chans w ! ch)"
    and "k \<in> set ks" and "pending (client w) k = Some r"
  shows "ChanSend r (call_Done (heap w ! r)) \<in> set (terminate_events err ks w)"
  using assms
proof (induction ks arbitrary: w)
  case Nil
  then show ?case by simp
next
  case (Cons a ks)
  show ?case
  proof (cases "pending (client w) a")
    case None
    with Cons.prems have "k \<in> set ks" by auto
    moreover from Cons.prems(2) None
    have "\<forall>ch < length (chans w).
           length (chan_buf (chans w ! ch)) + waiting_on ch ks w \<le> chan_cap (chans w ! ch)"
      by (simp add: waiting_on_Cons)
    ultimately show ?thesis
      using Cons.IH [of w] Cons.prems(1,4) None by simp
  next
    case (Some ra)
    define w1 where "w1 = set_Error ra err w"
    define w2 where "w2 = call_done ra w1"
    define cha where "cha = call_Done (heap w ! ra)"
    have cha: "cha < length (chans w)" using Cons.prems(1) Some by (simp add: cha_def)
    from Cons.prems(2) cha Some
    have room_a: "length (chan_buf (chans w ! cha)) + Suc (waiting_on cha ks w) \<le> chan_cap (chans w ! cha)"
      by (auto simp: waiting_on_Cons cha_def)
    then have ev: "done_event ra w1 = ChanSend ra cha"
      by (simp add: done_event_room w1_def cha_def)
    have te: "terminate_events err (a # ks) w = ChanSend ra cha # terminate_events err ks w2"
      using Some ev by (simp add: w1_def w2_def)
    have v2: "\<forall>k r. pending (client w2) k = Some r \<longrightarrow> call_Done (heap w2 ! r) < length (chans w2)"
      using Cons.prems(1) by (simp add: w2_def w1_def)
    have r2: "\<forall>ch < length (chans w2).
           length (chan_buf (chans w2 ! ch)) + waiting_on ch ks w2 \<le> chan_cap (chans w2 ! ch)"
    proof (intro allI impI)
      fix ch assume "ch < length (chans w2)"
      then have chl: "ch < length (chans w)" by (simp add: w2_def w1_def)
      have b: "length (chan_buf (chans w2 ! ch)) \<le>
           length (chan_buf (chans w ! ch)) + (if cha = ch then 1 else 0)"
        using chan_buf_call_done [of ch w1 ra] chl by (simp add: w2_def w1_def cha_def)
      have w: "waiting_on ch ks w2 = waiting_on ch ks w" by (simp add: w2_def w1_def)
      have c: "chan_cap (chans w2 ! ch) = chan_cap (chans w ! ch)" by (simp add: w2_def w1_def)
      show "length (chan_buf (chans w2 ! ch)) + waiting_on ch ks w2 \<le> chan_cap (chans w2 ! ch)"
      proof (cases "cha = ch")
        case True
        with b w c room_a show ?thesis by simp
      next
        case False
        with Cons.prems(2) chl Some have
          "length (chan_buf (chans w ! ch)) + waiting_on ch ks w \<le> chan_cap (chans w ! ch)"
          by (auto simp: waiting_on_Cons cha_def)
        with b w c False show ?thesis by simp
      qed
    qed
    show ?thesis
    proof (cases "a = k")
      case True
      with Some Cons.prems(4) te show ?thesis by (simp add: cha_def)
    next
      case False
      with Cons.prems(3) have "k \<in> set ks" by simp
      moreover have "pending (client w2) k = Some r" using Cons.prems(4) by (simp add: w2_def w1_def)
      ultimately have "ChanSend r (call_Done (heap w2 ! r)) \<in> set (terminate_events err ks w2)"
        using Cons.IH [OF v2 r2] by simp
      then show ?thesis using te by (simp add: w2_def w1_def)
    qed
  qed
qed

text \<open>
  C5 (as amended). When the read loop ends (\<open>ks\<close> being the order in which the pending table
  is visited): the shutdown flag is set; an EOF error becomes \<^verbatim>\<open>ErrShutdown\<close> when the local
  side had asked to close and \<^verbatim>\<open>io.ErrUnexpectedEOF\<close> otherwise; every entry of the pending table
  gets that error and \<^verbatim>\<open>done\<close> runs on it, under both locks; the strobe is delivered when the
  channels have room for all the calls that wait on them (and it is \<^verbatim>\<open>done\<close>'s to drop
  otherwise); only after that is the disconnect channel closed, once; the codec is closed
  after it exactly when the local side was not closing. If the disconnect channel is
  closed already, the close panics: the channel is never closed twice.
\<close>

theorem readLoop_exit_behaviour:
  assumes "\<forall>k r. pending (client w) k = Some r \<longrightarrow> r < length (heap w)"
    and "set ks = dom (pending (client w))"
  shows "if disconnect (client w)
         then readLoop_exit err ks w = Inl (Panic ''close of closed channel'')
         else (\<exists>w' D. readLoop_exit err ks w = Inr w'
           \<and> shutdown (client w') \<and> disconnect (client w')
           \<and> trace w' = trace w @ [Lock Sending, Lock Mutex] @ D
                          @ [Unlock Mutex, Unlock Sending, CloseDisconnect]
                          @ (if closing (client w) then [] else [CodecClose])
           \<and> (\<forall>e\<in>set D. is_strobe e)
           \<and> (\<forall>k r. pending (client w) k = Some r \<longrightarrow>
                 call_Error (heap w' ! r) = Some (exit_error err (closing (client w)))
                 \<and> 0 < dones r D)
           \<and> ((\<forall>k r. pending (client w) k = Some r \<longrightarrow>
                    call_Done (heap w ! r) < length (chans w))
                \<and> (\<forall>ch < length (chans w).
                      length (chan_buf (chans w ! ch)) + waiting_on ch ks w
                        \<le> chan_cap (chans w ! ch))
               \<longrightarrow> (\<forall>k r. pending (client w) k = Some r \<longrightarrow>
                      ChanSend r (call_Done (heap w ! r)) \<in> set D)))"
proof (cases "disconnect (client w)")
  case True
  then show ?thesis by (simp add: readLoop_exit_def Let_def emit_simps)
next
  case False
  define E where "E = exit_error err (closing (client w))"
  define w1 where "w1 = (emit [Lock Sending, Lock Mutex] w)
                          \<lparr>client := (client w)\<lparr>shutdown := True\<rparr>\<rparr>"
  define D where "D = terminate_events E ks w1"
  define w2 where "w2 = terminate_calls E ks w1"
  define w' where "w' = (let w4 = emit [CloseDisconnect]
                 ((emit [Unlock Mutex, Unlock Sending] w2)
                    \<lparr>client := (client w2)\<lparr>disconnect := True\<rparr>\<rparr>)
              in if \<not> closing (client w) then emit [CodecClose] w4 else w4)"
  have w1: "pending (client w1) = pending (client w)" "heap w1 = heap w" "chans w1 = chans w"
    "trace w1 = trace w @ [Lock Sending, Lock Mutex]" "closing (client w1) = closing (client w)"
    "disconnect (client w1) = disconnect (client w)"
    by (simp_all add: w1_def emit_simps)
  have wo: "\<And>ch. waiting_on ch ks w1 = waiting_on ch ks w"
    by (simp add: waiting_on_def w1 cong: option.case_cong)
  have res: "readLoop_exit err ks w = Inr w'"
    using False
    by (simp add: readLoop_exit_def Let_def emit_simps w'_def w2_def w1_def E_def exit_error_def)
  have tr: "trace w' = trace w @ [Lock Sending, Lock Mutex] @ D
                          @ [Unlock Mutex, Unlock Sending, CloseDisconnect]
                          @ (if closing (client w) then [] else [CodecClose])"
    by (simp add: w'_def Let_def emit_simps w2_def trace_terminate_calls w1 D_def)
  have cl: "shutdown (client w')" "disconnect (client w')"
    by (simp_all add: w'_def Let_def emit_simps w2_def w1_def)
  have hp: "heap w' = heap w2"
    by (simp add: w'_def Let_def emit_simps)
  have errs: "\<forall>k r. pending (client w) k = Some r \<longrightarrow>
                 call_Error (heap w' ! r) = Some E \<and> 0 < dones r D"
  proof (intro allI impI)
    fix k r assume p: "pending (client w) k = Some r"
    then have k: "k \<in> set ks" using assms(2) by auto
    have r: "r < length (heap w1)" using assms(1) p by (simp add: w1)
    from terminate_calls_Error [OF k _ r, of E] p
    have "call_Error (heap w2 ! r) = Some E" by (simp add: w2_def w1)
    moreover from terminate_events_dones [OF k, of w1 r E] p have "0 < dones r D"
      by (simp add: D_def w1)
    ultimately show "call_Error (heap w' ! r) = Some E \<and> 0 < dones r D" by (simp add: hp)
  qed
  have room: "(\<forall>k r. pending (client w) k = Some r \<longrightarrow>
                    call_Done (heap w ! r) < length (chans w))
                \<and> (\<forall>ch < length (chans w).
                      length (chan_buf (chans w ! ch)) + waiting_on ch ks w
                        \<le> chan_cap (chans w ! ch))
               \<longrightarrow> (\<forall>k r. pending (client w) k = Some r \<longrightarrow>
                      ChanSend r (call_Done (heap w ! r)) \<in> set D)"
  proof (intro impI allI, elim conjE)
    fix k r
    assume v: "\<forall>k r. pending (client w) k = Some r \<longrightarrow> call_Done (heap w ! r) < length (chans w)"
      and rm: "\<forall>ch < length (chans w).
                      length (chan_buf (chans w ! ch)) + waiting_on ch ks w
                        \<le> chan_cap (chans w ! ch)"
      and p: "pending (client w) k = Some r"
    have k: "k \<in> set ks" using assms(2) p by auto
    have "ChanSend r (call_Done (heap w1 ! r)) \<in> set (terminate_events E ks w1)"
      by (rule terminate_events_delivered) (use v rm p k in \<open>simp_all add: w1 wo\<close>)
    then show "ChanSend r (call_Done (heap w ! r)) \<in> set D" by (simp add: D_def w1)
  qed
  from False res tr cl errs room terminate_events_strobes [of E ks w1]
  show ?thesis
    unfolding D_def [symmetric] E_def [symmetric] by auto
qed

theorem readLoop_exit_behaviour_witness:
  "pending (client world_sent) = [1 \<mapsto> 0] \<and> length (heap world_sent) = 1
   \<and> set [1] = dom (pending (client world_sent))
   \<and> \<not> disconnect (client world_sent)
   \<and> (case readLoop_exit EOF [1] world_sent of
         Inl p \<Rightarrow> False
       | Inr w' \<Rightarrow> shutdown (client w') \<and> disconnect (client w')
           \<and> call_Error (heap w' ! 0) = Some ErrUnexpectedEOF
           \<and> ChanSend 0 0 \<in> set (trace w')
           \<and> CloseDisconnect \<in> set (trace w') \<and> CodecClose \<in> set (trace w'))"
proof -
  have h1: "\<forall>k r. pending (client world_sent) k = Some r \<longrightarrow> r < length (heap world_sent)"
    by (simp add: world_sent_eq)
  have h2: "set [1] = dom (pending (client world_sent))"
    by (simp add: world_sent_eq)
  have nd: "\<not> disconnect (client world_sent)"
    by (simp add: world_sent_eq Client_literal_def)
  have room: "(\<forall>k r. pending (client world_sent) k = Some r \<longrightarrow>
                 call_Done (heap world_sent ! r) < length (chans world_sent))
            \<and> (\<forall>ch < length (chans world_sent).
                 length (chan_buf (chans world_sent ! ch)) + waiting_on ch [1] world_sent
                   \<le> chan_cap (chans world_sent ! ch))"
    by (simp add: world_sent_eq waiting_on_def)
  from readLoop_exit_behaviour [OF h1 h2, of EOF] nd room
  obtain w' D where w': "readLoop_exit EOF [1] world_sent = Inr w'"
    "shutdown (client w')" "disconnect (client w')"
    "trace w' = trace world_sent @ [Lock Sending, Lock Mutex] @ D
                 @ [Unlock Mutex, Unlock Sending, CloseDisconnect]
                 @ (if closing (client world_sent) then [] else [CodecClose])"
    "\<forall>k r. pending (client world_sent) k = Some r \<longrightarrow>
        call_Error (heap w' ! r) = Some (exit_error EOF (closing (client world_sent)))
        \<and> 0 < dones r D"
    "\<forall>k r. pending (client world_sent) k = Some r \<longrightarrow>
        ChanSend r (call_Done (heap world_sent ! r)) \<in> set D"
    by auto
  have p: "pending (client world_sent) 1 = Some 0" by (simp add: world_sent_eq)
  from w'(5) [rule_format, OF p] have "call_Error (heap w' ! 0) = Some ErrUnexpectedEOF"
    by (simp add: exit_error_def world_sent_eq Client_literal_def)
  moreover from w'(6) [rule_format, OF p] have "ChanSend 0 0 \<in> set D"
    by (simp add: world_sent_eq)
  moreover have "\<not> closing (client world_sent)" by (simp add: world_sent_eq Client_literal_def)
  ultimately show ?thesis
    using w'(1-4) h2 nd by (simp add: world_sent_eq)
qed

text \<open>
  The claim as stated has the completion channel of every remaining entry strobed. \<^verbatim>\<open>done\<close>
  never blocks: of two pending calls made with \<^verbatim>\<open>Go\<close> on one channel of capacity 1, the
  second gets the error, but its strobe is dropped.
\<close>

theorem readLoop_exit_drops_strobe:
  "pending (client world_shared) 2 = Some 1
   \<and> call_Done (heap world_shared ! 1) = 0
   \<and> map_sum id trace (readLoop_exit EOF [1, 2] world_shared) =
       Inr (trace world_shared @
            [Lock Sending, Lock Mutex, ChanSend 0 0, Discard 1 0, Unlock Mutex, Unlock Sending,
             CloseDisconnect, CodecClose])"
  by (simp add: world_shared_eq readLoop_exit_def Let_def emit_def Client_literal_def
      set_Error_def call_done_def)

subsection \<open>The send lock\<close>

text \<open>Every operation of the engine keeps the discipline \<open>sending_scan\<close> reads off the trace:
  it takes the send lock only when it is free, releases it before it returns, and writes
  requests only while it holds it.\<close>

lemma sending_scan_append:
  "sending_scan h (xs @ ys) =
     (case sending_scan h xs of None \<Rightarrow> None | Some h' \<Rightarrow> sending_scan h' ys)"
  by (induction h xs rule: sending_scan.induct) auto

lemma sending_scan_strobe:
  "is_strobe e \<Longrightarrow> sending_scan h (e # es) = sending_scan h es"
  by (cases e) auto

lemma sending_scan_done_event [simp]:
  "sending_scan h (done_event r w # es) = sending_scan h es"
  by (simp add: sending_scan_strobe)

lemma sending_scan_strobes:
  "\<forall>e\<in>set D. is_strobe e \<Longrightarrow> sending_scan h (D @ es) = sending_scan h es"
  by (induction D) (auto simp: sending_scan_strobe)

lemmas scan_simps = sending_ok_def sending_scan_append emit_simps trace_call_done Let_def

lemma send_sending_ok: "sending_ok w \<Longrightarrow> sending_ok (send call werr w)"
  by (auto simp: scan_simps send_def send_register_def send_write_def send_finish_def
      split: option.splits)

lemma Notify_sending_ok: "sending_ok w \<Longrightarrow> sending_ok (snd (Notify m a werr w))"
  by (simp add: scan_simps Notify_def)

lemma Close_sending_ok: "sending_ok w \<Longrightarrow> sending_ok (snd (Close cerr w))"
  by (simp add: scan_simps Close_def)

lemma handleRequest_sending_ok: "sending_ok w \<Longrightarrow> sending_ok (handleRequest req m argv wres w)"
  by (simp add: scan_simps handleRequest_def split: prod.splits iface.splits)

lemma readRequest_sending_ok: "sending_ok w \<Longrightarrow> sending_ok (snd (readRequest req body wres w))"
  using handleRequest_sending_ok [of "emit [ReadRequestBody] w"]
  by (auto simp: scan_simps readRequest_def split: option.splits sum.splits)

lemma readResponse_sending_ok: "sending_ok w \<Longrightarrow> sending_ok (snd (readResponse resp body w))"
  by (auto simp: scan_simps readResponse_def split: option.splits sum.splits)

lemma Go_sending_ok: "sending_ok w \<Longrightarrow> Go m a r dn werr w = Inr (c, w') \<Longrightarrow> sending_ok w'"
  by (auto simp: Go_def Let_def sending_ok_def split: option.splits if_splits
      intro!: send_sending_ok [unfolded sending_ok_def])

lemma Call_Go_sending_ok:
  "sending_ok w \<Longrightarrow> Call_Go m a r werr w = Inr (c, w') \<Longrightarrow> sending_ok w'"
  by (auto simp: Call_Go_def Let_def sending_ok_def elim!: Go_sending_ok [unfolded sending_ok_def, rotated])

lemma Call_ctxDone_sending_ok:
  "sending_ok w \<Longrightarrow> Call_ctxDone call e werr w = Inr (e', w') \<Longrightarrow> sending_ok w'"
  by (auto simp: Call_ctxDone_def scan_simps split: if_splits sum.splits
      elim!: Go_sending_ok [unfolded sending_ok_def, rotated])

lemma Call_Done_sending_ok:
  "sending_ok w \<Longrightarrow> Call_Done call w = Some (e, w') \<Longrightarrow> sending_ok w'"
  by (auto simp: Call_Done_def scan_simps split: list.splits)

lemma trace_readLoop_exit:
  "readLoop_exit err ks w = Inr w' \<Longrightarrow>
   \<exists>D. (\<forall>e\<in>set D. is_strobe e) \<and>
       trace w' = trace w @ [Lock Sending, Lock Mutex] @ D
                   @ [Unlock Mutex, Unlock Sending, CloseDisconnect]
                   @ (if closing (client w) then [] else [CodecClose])"
  by (auto simp: readLoop_exit_def Let_def emit_simps trace_terminate_calls
      terminate_events_strobes split: if_splits)

lemma readLoop_exit_sending_ok:
  assumes "sending_ok w" "readLoop_exit err ks w = Inr w'"
  shows "sending_ok w'"
proof -
  from trace_readLoop_exit [OF assms(2)] obtain D where
    D: "\<forall>e\<in>set D. is_strobe e"
    "trace w' = trace w @ [Lock Sending, Lock Mutex] @ D
                   @ [Unlock Mutex, Unlock Sending, CloseDisconnect]
                   @ (if closing (client w) then [] else [CodecClose])"
    by blast
  show ?thesis
    using assms(1) D(2) sending_scan_strobes [OF D(1)]
    by (simp add: sending_ok_def sending_scan_append)
qed

lemma exec_sending_ok: "sending_ok w \<Longrightarrow> exec a w = Inr w' \<Longrightarrow> sending_ok w'"
proof (cases a)
  case (AGo m ar r dn werr)
  assume "sending_ok w" "exec a w = Inr w'"
  with AGo show ?thesis
    by (cases "Go m ar r dn werr w") (auto split: if_splits elim: Go_sending_ok)
next
  case (ACall m ar r werr)
  assume "sending_ok w" "exec a w = Inr w'"
  with ACall show ?thesis
    by (cases "Call_Go m ar r werr w") (auto elim: Call_Go_sending_ok)
next
  case (ACallDone c)
  assume "sending_ok w" "exec a w = Inr w'"
  with ACallDone show ?thesis
    by (auto split: if_splits option.splits elim: Call_Done_sending_ok)
next
  case (ACtxDone c e werr)
  assume "sending_ok w" "exec a w = Inr w'"
  with ACtxDone show ?thesis
    by (cases "Call_ctxDone c e werr w") (auto split: if_splits elim: Call_ctxDone_sending_ok)
next
  case (AExit e ks)
  assume "sending_ok w" "exec a w = Inr w'"
  with AExit show ?thesis
    by (auto split: if_splits elim: readLoop_exit_sending_ok)
next
  case (AHandle m f)
  assume "sending_ok w" "exec a w = Inr w'"
  with AHandle show ?thesis
    by (auto simp: sending_ok_def split: sum.splits)
qed (auto simp: sending_ok_def Notify_sending_ok [unfolded sending_ok_def]
       Close_sending_ok [unfolded sending_ok_def] readRequest_sending_ok [unfolded sending_ok_def]
       readResponse_sending_ok [unfolded sending_ok_def]
       handleRequest_sending_ok [unfolded sending_ok_def]
       split: option.splits if_splits)

lemma run_sending_ok: "sending_ok w \<Longrightarrow> run w as = Inr w' \<Longrightarrow> sending_ok w'"
  by (induction as arbitrary: w) (auto split: sum.splits dest: exec_sending_ok)

text \<open>
  C9 (as amended). In every run of the engine the send lock is taken only while it is free
  and released by the operation that took it, and every request written to the codec (by
  \<^verbatim>\<open>send\<close> for \<^verbatim>\<open>Call\<close>, \<^verbatim>\<open>Go\<close> and the cancel request, and by \<^verbatim>\<open>Notify\<close>) is written while the
  lock is held. The operations that write responses, \<^verbatim>\<open>handleRequest\<close> and \<^verbatim>\<open>readRequest\<close> (its
  unknown-method response), never take the send lock.
\<close>

theorem sending_lock_discipline:
  assumes "run (new_world c) as = Inr w"
  shows "sending_scan False (trace w) = Some False
         \<and> Lock Sending \<notin>
             set (drop (length (trace v)) (trace (handleRequest req method argv wres v)))
         \<and> Lock Sending \<notin>
             set (drop (length (trace v)) (trace (snd (readRequest req body wres v))))"
proof -
  have "sending_ok (new_world c)"
    by (simp add: sending_ok_def new_world_def)
  from run_sending_ok [OF this assms] have "sending_scan False (trace w) = Some False"
    by (simp add: sending_ok_def)
  moreover have h: "\<exists>es. trace (handleRequest rq m av wr u) = trace u @ es
                         \<and> Lock Sending \<notin> set es" for u rq m av wr
    by (simp add: handleRequest_def Let_def emit_simps split: prod.splits iface.splits)
  moreover have "\<exists>es. trace (snd (readRequest req body wres v)) = trace v @ es
                   \<and> Lock Sending \<notin> set es"
  proof (cases "handlers (client v) (req_Method req)")
    case None
    then show ?thesis by (simp add: readRequest_def Let_def emit_simps)
  next
    case (Some m)
    show ?thesis
    proof (cases body)
      case (Inl e)
      with Some show ?thesis by (simp add: readRequest_def Let_def emit_simps)
    next
      case (Inr a)
      define av where "av = (if \<not> Kind_is_Ptr (argType m) then a else IPtr a)"
      from h [of req m av wres "emit [ReadRequestBody] v"] obtain es where
        "trace (handleRequest req m av wres (emit [ReadRequestBody] v)) =
           trace v @ ReadRequestBody # es" "Lock Sending \<notin> set es"
        by (auto simp: emit_simps)
      with Some Inr show ?thesis
        by (simp add: readRequest_def Let_def emit_simps av_def)
    qed
  qed
  moreover from h [of req "method" argv wres v]
  have "Lock Sending \<notin>
          set (drop (length (trace v)) (trace (handleRequest req method argv wres v)))"
    by auto
  ultimately show ?thesis by auto
qed

theorem sending_lock_discipline_witness:
  "(case run (new_world Client_literal)
           [ACall ''add'' (IInt 1) INil None, ANotify ''set'' (IInt 6) None] of
      Inl p \<Rightarrow> False
    | Inr w \<Rightarrow> sending_scan False (trace w) = Some False
               \<and> WriteRequest \<lparr>req_Seq = 0, req_Method = ''set''\<rparr> (IInt 6) \<in> set (trace w))"
proof -
  obtain w where w: "run (new_world Client_literal)
      [ACall ''add'' (IInt 1) INil None, ANotify ''set'' (IInt 6) None] = Inr w"
    and t: "WriteRequest \<lparr>req_Seq = 0, req_Method = ''set''\<rparr> (IInt 6) \<in> set (trace w)"
    by (simp add: new_world_def Client_literal_def Call_Go_def Go_def send_def send_register_def
        send_write_def send_finish_def Notify_def Let_def emit_def)
  from sending_lock_discipline [OF w] t w show ?thesis by simp
qed

text \<open>
  The claim as stated has response emission take the send lock before it writes. The trace
  of \<^verbatim>\<open>handleRequest\<close> for a request with seq 1: the response is written, and no lock is
  taken.
\<close>

theorem handleRequest_writes_unlocked:
  "trace (handleRequest \<lparr>req_Seq = 1, req_Method = ''_goRPC_.Cancel''\<rparr> sample_handler
            (IPtr (ICancelArgs 5)) None (new_world Client_literal)) =
     [SetPending, PendingStart 1, Invoke ''_goRPC_.Cancel'' (IPtr (ICancelArgs 5)),
      WriteResponse \<lparr>resp_Seq = 1, resp_Error = []\<rparr> (IPtr (IInt 1)), PendingCancel 1]"
  by (simp add: handleRequest_def Let_def emit_def new_world_def sample_handler_def
      GoRPC_Cancel_def)

subsection \<open>Sequence numbers\<close>

text \<open>Every operation of the engine keeps \<open>seq_inv\<close>: only \<^verbatim>\<open>send\<close> assigns, and it assigns
  the counter's value and adds one to the counter.\<close>

lemma assigned_append: "assigned (xs @ ys) = assigned xs @ assigned ys"
  by (induction xs rule: assigned.induct) auto

lemma assigned_strobe: "is_strobe e \<Longrightarrow> assigned (e # es) = assigned es"
  by (cases e) auto

lemma assigned_done_event [simp]: "assigned (done_event r w # es) = assigned es"
  by (simp add: assigned_strobe)

lemma assigned_strobes: "\<forall>e\<in>set D. is_strobe e \<Longrightarrow> assigned D = []"
  by (induction D) (auto simp: assigned_strobe)

lemma seq_inv_same:
  "seq_inv w \<Longrightarrow> seq (client w') = seq (client w) \<Longrightarrow>
   assigned (trace w') = assigned (trace w) \<Longrightarrow> seq_inv w'"
  by (simp add: seq_inv_def)

lemma seq_inv_next:
  assumes "seq_inv w" "seq (client w') = seq (client w) + 1"
    "assigned (trace w') = assigned (trace w) @ [seq (client w)]"
  shows "seq_inv w'"
proof -
  define n where "n = length (assigned (trace w))"
  from assms(1) have a: "assigned (trace w) = map (\<lambda>i. word_of_nat (Suc i)) [0..<n]"
    and s: "seq (client w) = word_of_nat (Suc n)"
    by (simp_all add: seq_inv_def n_def)
  have l: "length (assigned (trace w')) = Suc n" using assms(3) by (simp add: n_def)
  have "assigned (trace w') = map (\<lambda>i. word_of_nat (Suc i)) [0..<Suc n]"
    using assms(3) a s by simp
  moreover have "seq (client w') = word_of_nat (Suc (Suc n))"
    using assms(2) s by simp
  ultimately show ?thesis by (simp add: seq_inv_def l)
qed

lemmas asg_simps = assigned_append emit_simps trace_call_done Let_def

lemma send_seq_inv: "seq_inv w \<Longrightarrow> seq_inv (send call werr w)"
proof (cases "shutdown (client w) \<or> closing (client w) \<or> call_seq (heap w ! call) \<noteq> 0")
  case True
  assume "seq_inv w"
  then show ?thesis
    by (rule seq_inv_same)
      (use True in \<open>auto simp: send_def send_register_def asg_simps\<close>)
next
  case False
  assume "seq_inv w"
  then show ?thesis
    by (rule seq_inv_next)
      (use False in \<open>auto simp: send_def send_register_def send_write_def send_finish_def asg_simps
         split: option.splits\<close>)
qed


lemma seq_inv_cong:
  "seq (client w') = seq (client w) \<Longrightarrow> trace w' = trace w \<Longrightarrow> seq_inv w' = seq_inv w"
  by (simp add: seq_inv_def)

lemma Notify_seq_inv: "seq_inv w \<Longrightarrow> seq_inv (snd (Notify m a werr w))"
  by (erule seq_inv_same) (simp_all add: Notify_def asg_simps)

lemma Close_seq_inv: "seq_inv w \<Longrightarrow> seq_inv (snd (Close cerr w))"
  by (erule seq_inv_same) (simp_all add: Close_def asg_simps)

lemma handleRequest_seq_inv: "seq_inv w \<Longrightarrow> seq_inv (handleRequest req m argv wres w)"
  by (erule seq_inv_same)
     (simp_all add: handleRequest_def asg_simps split: prod.splits iface.splits)

lemma readRequest_seq_inv: "seq_inv w \<Longrightarrow> seq_inv (snd (readRequest req body wres w))"
  by (erule seq_inv_same)
     (auto simp: readRequest_def handleRequest_def asg_simps
        split: option.splits sum.splits prod.splits iface.splits)

lemma readResponse_seq_inv: "seq_inv w \<Longrightarrow> seq_inv (snd (readResponse resp body w))"
  by (erule seq_inv_same)
     (auto simp: readResponse_def asg_simps split: option.splits sum.splits)

lemma Go_seq_inv: "seq_inv w \<Longrightarrow> Go m a r dn werr w = Inr (c, w') \<Longrightarrow> seq_inv w'"
  by (auto simp: Go_def Let_def split: option.splits if_splits
      intro!: send_seq_inv elim: seq_inv_same)

lemma Call_Go_seq_inv: "seq_inv w \<Longrightarrow> Call_Go m a r werr w = Inr (c, w') \<Longrightarrow> seq_inv w'"
  unfolding Call_Go_def Let_def
  by (erule Go_seq_inv [rotated]) (erule seq_inv_same, simp_all)

lemma Call_ctxDone_seq_inv:
  assumes "seq_inv w" "Call_ctxDone call e werr w = Inr (e', w')"
  shows "seq_inv w'"
proof -
  define w3 where "w3 = emit [Unlock Mutex]
     (let w0 = emit [Lock Mutex] w; sq = call_seq (heap w0 ! call);
          w1 = w0\<lparr>client := (client w0)\<lparr>pending := (pending (client w0))(sq := None)\<rparr>\<rparr>
      in if sq = 0 then w1\<lparr>heap := (heap w1)[call := (heap w1 ! call)\<lparr>call_seq := 1\<rparr>]\<rparr> else w1)"
  have "seq_inv w3"
    using assms(1) by (rule seq_inv_same) (simp_all add: w3_def asg_simps)
  moreover from assms(2) have "w' = w3 \<or> (\<exists>m a r dn c. Go m a r dn werr w3 = Inr (c, w'))"
    by (auto simp: Call_ctxDone_def Let_def w3_def emit_simps split: if_splits sum.splits)
  ultimately show ?thesis by (auto elim: Go_seq_inv)
qed

lemma Call_Done_seq_inv: "seq_inv w \<Longrightarrow> Call_Done call w = Some (e, w') \<Longrightarrow> seq_inv w'"
  by (erule seq_inv_same) (auto simp: Call_Done_def Let_def split: list.splits)

lemma readLoop_exit_seq_inv:
  assumes "seq_inv w" "readLoop_exit err ks w = Inr w'"
  shows "seq_inv w'"
proof -
  from trace_readLoop_exit [OF assms(2)] obtain D where
    D: "\<forall>e\<in>set D. is_strobe e"
    "trace w' = trace w @ [Lock Sending, Lock Mutex] @ D
                   @ [Unlock Mutex, Unlock Sending, CloseDisconnect]
                   @ (if closing (client w) then [] else [CodecClose])"
    by blast
  have "seq (client w') = seq (client w)"
    using assms(2) by (auto simp: readLoop_exit_def Let_def emit_simps split: if_splits)
  with assms(1) show ?thesis
    by (rule seq_inv_same) (simp add: D(2) assigned_append assigned_strobes [OF D(1)])
qed

lemma Handle_seq: "Handle c m f = Inr c' \<Longrightarrow> seq c' = seq c"
  by (auto simp: Handle_def split: sum.splits)

lemma exec_seq_inv: "seq_inv w \<Longrightarrow> exec a w = Inr w' \<Longrightarrow> seq_inv w'"
proof (cases a)
  case (AGo m ar r dn werr)
  assume "seq_inv w" "exec a w = Inr w'"
  with AGo show ?thesis
    by (cases "Go m ar r dn werr w") (auto split: if_splits elim: Go_seq_inv)
next
  case (ACall m ar r werr)
  assume "seq_inv w" "exec a w = Inr w'"
  with ACall show ?thesis
    by (cases "Call_Go m ar r werr w") (auto elim: Call_Go_seq_inv)
next
  case (ACallDone c)
  assume "seq_inv w" "exec a w = Inr w'"
  with ACallDone show ?thesis
    by (auto split: if_splits option.splits elim: Call_Done_seq_inv)
next
  case (ACtxDone c e werr)
  assume "seq_inv w" "exec a w = Inr w'"
  with ACtxDone show ?thesis
    by (cases "Call_ctxDone c e werr w") (auto split: if_splits elim: Call_ctxDone_seq_inv)
next
  case (AExit e ks)
  assume "seq_inv w" "exec a w = Inr w'"
  with AExit show ?thesis
    by (auto split: if_splits elim: readLoop_exit_seq_inv)
next
  case (AHandle m f)
  assume "seq_inv w" "exec a w = Inr w'"
  with AHandle show ?thesis
    by (auto split: sum.splits dest!: Handle_seq simp: seq_inv_cong [of "w\<lparr>client := _\<rparr>" w])
next
  case (AMakeChan n)
  assume "seq_inv w" "exec a w = Inr w'"
  with AMakeChan show ?thesis by (auto elim: seq_inv_same)
next
  case (ARecv ch)
  assume "seq_inv w" "exec a w = Inr w'"
  with ARecv show ?thesis by (auto split: if_splits elim: seq_inv_same)
next
  case (ASetBlocking b)
  assume "seq_inv w" "exec a w = Inr w'"
  with ASetBlocking show ?thesis by (auto elim: seq_inv_same)
qed (auto simp: Notify_seq_inv Close_seq_inv readRequest_seq_inv readResponse_seq_inv
       handleRequest_seq_inv split: option.splits)

lemma run_seq_inv: "seq_inv w \<Longrightarrow> run w as = Inr w' \<Longrightarrow> seq_inv w'"
  by (induction as arbitrary: w) (auto split: sum.splits dest: exec_seq_inv)


lemma seq_inv_new_world: "seq c = 1 \<Longrightarrow> seq_inv (new_world c)"
  by (simp add: seq_inv_def new_world_def)

lemma seq_inv_nth:
  "seq_inv w \<Longrightarrow> i < length (assigned (trace w)) \<Longrightarrow>
   assigned (trace w) ! i = word_of_nat (Suc i)"
proof -
  assume a: "seq_inv w" and i: "i < length (assigned (trace w))"
  from a have "assigned (trace w) ! i =
     map (\<lambda>i. word_of_nat (Suc i)) [0..<length (assigned (trace w))] ! i"
    by (simp add: seq_inv_def)
  also have "\<dots> = word_of_nat (Suc i)" using i by simp
  finally show ?thesis .
qed

lemma unat_word_of_nat_64: "n < 2 ^ 64 \<Longrightarrow> unat (word_of_nat n :: uint64) = n"
  by (simp add: unat_of_nat)

lemma exec_Go_fresh:
  assumes "\<not> shutdown (client w)" "\<not> closing (client w)"
  shows "\<exists>w'. exec (AGo m a r None None) w = Inr w'
           \<and> length (assigned (trace w')) = Suc (length (assigned (trace w)))
           \<and> \<not> shutdown (client w') \<and> \<not> closing (client w')"
  using assms
  by (simp add: Go_def send_def send_register_def send_write_def send_finish_def asg_simps)

lemma run_replicate_Go:
  "\<not> shutdown (client w) \<Longrightarrow> \<not> closing (client w) \<Longrightarrow>
   \<exists>w'. run w (replicate n (AGo m a r None None)) = Inr w'
        \<and> length (assigned (trace w')) = length (assigned (trace w)) + n
        \<and> \<not> shutdown (client w') \<and> \<not> closing (client w')"
proof (induction n arbitrary: w)
  case 0
  then show ?case by simp
next
  case (Suc n)
  from exec_Go_fresh [OF Suc.prems, of m a r] obtain w1 where
    w1: "exec (AGo m a r None None) w = Inr w1"
    "length (assigned (trace w1)) = Suc (length (assigned (trace w)))"
    "\<not> shutdown (client w1)" "\<not> closing (client w1)"
    by blast
  from Suc.IH [OF w1(3,4)] obtain w' where
    "run w1 (replicate n (AGo m a r None None)) = Inr w'"
    "length (assigned (trace w')) = length (assigned (trace w1)) + n"
    "\<not> shutdown (client w')" "\<not> closing (client w')"
    by blast
  with w1 show ?case by simp
qed

text \<open>
  C2 (as amended). In every run of a new peer (its counter starts at 1), the i-th sequence
  number \<^verbatim>\<open>send\<close> assigns is i as a \<^verbatim>\<open>uint64\<close>. As long as fewer than \<open>2 ^ 64\<close> have been assigned,
  the i-th is the number i itself, 0 is not among them, they increase strictly and none is
  assigned twice.
\<close>

theorem assigned_seqs:
  assumes "run (new_world c) as = Inr w" and "seq c = 1"
  shows "(\<forall>i < length (assigned (trace w)). assigned (trace w) ! i = word_of_nat (Suc i))
       \<and> (length (assigned (trace w)) < 2 ^ 64 \<longrightarrow>
            (\<forall>i < length (assigned (trace w)). unat (assigned (trace w) ! i) = Suc i)
            \<and> 0 \<notin> set (assigned (trace w))
            \<and> sorted_wrt (<) (assigned (trace w))
            \<and> distinct (assigned (trace w)))"
proof -
  define xs where "xs = assigned (trace w)"
  have inv: "seq_inv w"
    using run_seq_inv [OF seq_inv_new_world [OF assms(2)] assms(1)] .
  have nth: "\<forall>i < length xs. xs ! i = word_of_nat (Suc i)"
    using seq_inv_nth [OF inv] by (simp add: xs_def)
  have bounded: "(\<forall>i < length xs. unat (xs ! i) = Suc i) \<and> 0 \<notin> set xs
      \<and> sorted_wrt (<) xs \<and> distinct xs" if len: "length xs < 2 ^ 64"
  proof -
    have u: "\<forall>i < length xs. unat (xs ! i) = Suc i"
    proof (intro allI impI)
      fix i assume i: "i < length xs"
      with len have "Suc i < 2 ^ 64" by simp
      moreover from nth i have "xs ! i = word_of_nat (Suc i)" by blast
      ultimately show "unat (xs ! i) = Suc i" by (simp only: unat_word_of_nat_64)
    qed
    have z: "0 \<notin> set xs"
    proof
      assume "0 \<in> set xs"
      then obtain i where "i < length xs" "xs ! i = 0" by (auto simp: in_set_conv_nth)
      with u show False by (metis Zero_not_Suc unat_0)
    qed
    have s: "sorted_wrt (<) xs"
      unfolding sorted_wrt_iff_nth_less
    proof (intro allI impI)
      fix i j assume "i < j" "j < length xs"
      with u have "unat (xs ! i) = Suc i" "unat (xs ! j) = Suc j" by simp_all
      with \<open>i < j\<close> show "xs ! i < xs ! j" by (simp add: word_less_nat_alt)
    qed
    have d: "distinct xs"
      unfolding distinct_conv_nth
    proof (intro allI impI)
      fix i j assume "i < length xs" "j < length xs" "i \<noteq> j"
      with u have "unat (xs ! i) = Suc i" "unat (xs ! j) = Suc j" by simp_all
      with \<open>i \<noteq> j\<close> show "xs ! i \<noteq> xs ! j" by auto
    qed
    from u z s d show ?thesis by simp
  qed
  from nth bounded show ?thesis by (simp add: xs_def)
qed

theorem assigned_seqs_witness:
  "seq Client_literal = 1
   \<and> (case run (new_world Client_literal)
             [AGo ''a'' (IInt 1) INil None None, ANotify ''set'' (IInt 6) None,
              AGo ''b'' (IInt 2) INil None (Some EOF)] of
         Inl p \<Rightarrow> False
       | Inr w \<Rightarrow> length (assigned (trace w)) = 2
           \<and> assigned (trace w) ! 0 = 1 \<and> assigned (trace w) ! 1 = 2
           \<and> 0 \<notin> set (assigned (trace w)) \<and> distinct (assigned (trace w)))"
proof -
  have s: "seq Client_literal = 1" by (simp add: Client_literal_def)
  obtain w where w: "run (new_world Client_literal)
             [AGo ''a'' (IInt 1) INil None None, ANotify ''set'' (IInt 6) None,
              AGo ''b'' (IInt 2) INil None (Some EOF)] = Inr w"
    and l: "length (assigned (trace w)) = 2"
    by (simp add: new_world_def Client_literal_def Go_def send_def send_register_def
        send_write_def send_finish_def Notify_def Let_def emit_def call_done_def set_Error_def)
  from assigned_seqs [OF w s] l w s show ?thesis by simp
qed

text \<open>
  The claim as stated holds of every sequence of sends. The counter is a \<^verbatim>\<open>uint64\<close>: the
  \<open>2 ^ 64\<close>-th call of a peer is assigned 0, the number of notifications.
\<close>

theorem assigned_seq_wraps_to_zero:
  "length (assigned_of (run (new_world Client_literal)
             (replicate (2 ^ 64) (AGo [] INil INil None None)))) = 2 ^ 64
   \<and> last (assigned_of (run (new_world Client_literal)
             (replicate (2 ^ 64) (AGo [] INil INil None None)))) = 0"
proof -
  have ns: "\<not> shutdown (client (new_world Client_literal))"
    "\<not> closing (client (new_world Client_literal))"
    by (simp_all add: new_world_def Client_literal_def)
  from run_replicate_Go [OF ns, of "2 ^ 64" "[]" INil INil] obtain w where
    w: "run (new_world Client_literal) (replicate (2 ^ 64) (AGo [] INil INil None None)) = Inr w"
    and l: "length (assigned (trace w)) = 2 ^ 64"
    by (auto simp: new_world_def)
  have "seq_inv (new_world Client_literal)"
    by (rule seq_inv_new_world) (simp add: Client_literal_def)
  from run_seq_inv [OF this w] have inv: "seq_inv w" .
  have ne: "assigned (trace w) \<noteq> []" using l by auto
  have "last (assigned (trace w)) = assigned (trace w) ! (2 ^ 64 - 1)"
    using ne l by (simp add: last_conv_nth)
  also have "\<dots> = word_of_nat (Suc (2 ^ 64 - 1))"
    using seq_inv_nth [OF inv, of "2 ^ 64 - 1"] l by simp
  also have "\<dots> = (0 :: uint64)" by simp
  finally show ?thesis using w l by (simp add: assigned_of_def)
qed

subsection \<open>Completion of calls\<close>

text \<open>What each operation does to the pending table, the number of calls and the number
  of times \<^verbatim>\<open>done\<close> ran on a call; and that these changes keep \<open>inv_base\<close> and \<open>inv_live\<close>.\<close>

lemma dones_append: "dones r (xs @ ys) = dones r xs + dones r ys"
  by (simp add: dones_def)

lemma dones_Nil [simp]: "dones r [] = 0"
  by (simp add: dones_def)

lemma dones_Cons: "dones r (e # es) = (if is_done r e then 1 else 0) + dones r es"
  by (simp add: dones_def)

lemma is_done_done_event_iff [simp]: "is_done r (done_event r' w) = (r = r')"
  by (simp add: done_event_def Let_def)

lemmas dn_simps = dones_append dones_Cons emit_simps trace_call_done Let_def

lemma send_effect:
  "length (heap (send call werr w)) = length (heap w)
   \<and> ((pending (client (send call werr w)) = pending (client w)
        \<and> (\<forall>r. dones r (trace (send call werr w)) =
                 dones r (trace w) + (if r = call then 1 else 0)))
      \<or> (pending (client (send call werr w)) = (pending (client w))(seq (client w) \<mapsto> call)
        \<and> (\<forall>r. dones r (trace (send call werr w)) = dones r (trace w)))
      \<or> (pending (client (send call werr w)) = (pending (client w))(seq (client w) := None)
        \<and> (\<forall>r. dones r (trace (send call werr w)) =
                 dones r (trace w) + (if r = call then 1 else 0))))"
  by (cases werr)
     (auto simp: send_def send_register_def send_write_def send_finish_def dn_simps)

lemma readResponse_effect:
  "length (heap (snd (readResponse resp body w))) = length (heap w)
   \<and> pending (client (snd (readResponse resp body w))) =
       (pending (client w))(resp_Seq resp := None)
   \<and> (\<forall>r. dones r (trace (snd (readResponse resp body w))) =
            dones r (trace w) + (if pending (client w) (resp_Seq resp) = Some r then 1 else 0))"
  by (auto simp: readResponse_def dn_simps split: option.splits sum.splits)

lemma handleRequest_effect:
  "heap (handleRequest req m argv wres w) = heap w
   \<and> pending (client (handleRequest req m argv wres w)) = pending (client w)
   \<and> (\<forall>r. dones r (trace (handleRequest req m argv wres w)) = dones r (trace w))"
  by (auto simp: handleRequest_def dn_simps split: prod.splits iface.splits)

lemma readRequest_effect:
  "heap (snd (readRequest req body wres w)) = heap w
   \<and> pending (client (snd (readRequest req body wres w))) = pending (client w)
   \<and> (\<forall>r. dones r (trace (snd (readRequest req body wres w))) = dones r (trace w))"
  using handleRequest_effect [of req _ _ wres "emit [ReadRequestBody] w"]
  by (auto simp: readRequest_def dn_simps split: option.splits sum.splits)

lemma Notify_effect':
  "heap (snd (Notify m a werr w)) = heap w
   \<and> pending (client (snd (Notify m a werr w))) = pending (client w)
   \<and> (\<forall>r. dones r (trace (snd (Notify m a werr w))) = dones r (trace w))"
  by (simp add: Notify_def dn_simps)

lemma Close_effect:
  "heap (snd (Close cerr w)) = heap w
   \<and> pending (client (snd (Close cerr w))) = pending (client w)
   \<and> (\<forall>r. dones r (trace (snd (Close cerr w))) = dones r (trace w))"
  by (simp add: Close_def dn_simps)


lemma inv_baseI:
  assumes "\<And>r. dones r (trace w) \<le> 1"
    and "\<And>r. length (heap w) \<le> r \<Longrightarrow> dones r (trace w) = 0"
    and "\<And>k r. pending (client w) k = Some r \<Longrightarrow> r < length (heap w)"
    and "\<And>k k' r. pending (client w) k = Some r \<Longrightarrow> pending (client w) k' = Some r \<Longrightarrow> k = k'"
  shows "inv_base w"
  using assms unfolding inv_base_def by blast

lemma inv_baseD:
  assumes "inv_base w"
  shows "dones r (trace w) \<le> 1"
    and "length (heap w) \<le> r \<Longrightarrow> dones r (trace w) = 0"
    and "pending (client w) k = Some r \<Longrightarrow> r < length (heap w)"
    and "pending (client w) k = Some r \<Longrightarrow> pending (client w) k' = Some r \<Longrightarrow> k = k'"
  using assms unfolding inv_base_def by blast+

lemma inv_liveI:
  assumes "inv_base w"
    and "\<And>k r. pending (client w) k = Some r \<Longrightarrow> dones r (trace w) = 0"
  shows "inv_live w"
  using assms unfolding inv_live_def by blast

lemma inv_liveD:
  assumes "inv_live w"
  shows "inv_base w"
    and "pending (client w) k = Some r \<Longrightarrow> dones r (trace w) = 0"
  using assms unfolding inv_live_def by blast+

lemma inv_base_same:
  assumes "inv_base w" "length (heap w) \<le> length (heap w')"
    and "pending (client w') = pending (client w)"
    and "\<And>r. dones r (trace w') = dones r (trace w)"
  shows "inv_base w'"
proof (rule inv_baseI)
  fix r show "dones r (trace w') \<le> 1" using inv_baseD(1) [OF assms(1)] assms(4) by simp
next
  fix r assume "length (heap w') \<le> r"
  with assms(2) have "length (heap w) \<le> r" by simp
  from inv_baseD(2) [OF assms(1) this] show "dones r (trace w') = 0" by (simp add: assms(4))
next
  fix k r assume "pending (client w') k = Some r"
  with inv_baseD(3) [OF assms(1), of k r] assms(2,3) show "r < length (heap w')" by simp
next
  fix k k' r assume "pending (client w') k = Some r" "pending (client w') k' = Some r"
  with inv_baseD(4) [OF assms(1), of k r k'] assms(3) show "k = k'" by simp
qed

lemma inv_live_same:
  assumes "inv_live w" "length (heap w) \<le> length (heap w')"
    and "pending (client w') = pending (client w)"
    and "\<And>r. dones r (trace w') = dones r (trace w)"
  shows "inv_live w'"
proof (rule inv_liveI)
  show "inv_base w'" using inv_base_same [OF inv_liveD(1) [OF assms(1)] assms(2-4)] .
next
  fix k r assume "pending (client w') k = Some r"
  with inv_liveD(2) [OF assms(1), of k r] assms(3,4) show "dones r (trace w') = 0" by simp
qed

lemma inv_base_remove:
  assumes "inv_base w" "length (heap w) \<le> length (heap w')"
    and "pending (client w') = (pending (client w))(k0 := None)"
    and "\<And>r. dones r (trace w') = dones r (trace w)"
  shows "inv_base w'"
proof (rule inv_baseI)
  fix r show "dones r (trace w') \<le> 1" using inv_baseD(1) [OF assms(1)] assms(4) by simp
next
  fix r assume "length (heap w') \<le> r"
  with assms(2) have "length (heap w) \<le> r" by simp
  from inv_baseD(2) [OF assms(1) this] show "dones r (trace w') = 0" by (simp add: assms(4))
next
  fix k r assume "pending (client w') k = Some r"
  then have "pending (client w) k = Some r" by (simp add: assms(3) split: if_splits)
  with inv_baseD(3) [OF assms(1), of k r] assms(2) show "r < length (heap w')" by simp
next
  fix k k' r assume "pending (client w') k = Some r" "pending (client w') k' = Some r"
  then have "pending (client w) k = Some r" "pending (client w) k' = Some r"
    by (simp_all add: assms(3) split: if_splits)
  with inv_baseD(4) [OF assms(1), of k r k'] show "k = k'" by simp
qed

lemma inv_live_remove:
  assumes "inv_live w" "length (heap w) \<le> length (heap w')"
    and "pending (client w') = (pending (client w))(k0 := None)"
    and "\<And>r. dones r (trace w') = dones r (trace w)"
  shows "inv_live w'"
proof (rule inv_liveI)
  show "inv_base w'" using inv_base_remove [OF inv_liveD(1) [OF assms(1)] assms(2-4)] .
next
  fix k r assume "pending (client w') k = Some r"
  then have "pending (client w) k = Some r" by (simp add: assms(3) split: if_splits)
  with inv_liveD(2) [OF assms(1), of k r] assms(4) show "dones r (trace w') = 0" by simp
qed

lemma inv_live_answer:
  assumes "inv_live w"
    and "length (heap w') = length (heap w)"
    and "pending (client w') = (pending (client w))(k0 := None)"
    and "\<And>r. dones r (trace w') =
            dones r (trace w) + (if pending (client w) k0 = Some r then 1 else 0)"
  shows "inv_live w'"
proof -
  note b = inv_liveD(1) [OF assms(1)]
  have old: "pending (client w) k = Some r" "k \<noteq> k0" if "pending (client w') k = Some r" for k r
    using that by (simp_all add: assms(3) split: if_splits)
  have keep: "dones r (trace w') = dones r (trace w)" if "pending (client w') k = Some r" for k r
  proof -
    from old [OF that] inv_baseD(4) [OF b, of k r k0] have "pending (client w) k0 \<noteq> Some r"
      by auto
    then show ?thesis by (simp add: assms(4))
  qed
  show ?thesis
  proof (rule inv_liveI, rule inv_baseI)
    fix r show "dones r (trace w') \<le> 1"
    proof (cases "pending (client w) k0 = Some r")
      case True
      from inv_liveD(2) [OF assms(1) True] True show ?thesis by (simp add: assms(4))
    next
      case False
      with inv_baseD(1) [OF b, of r] show ?thesis by (simp add: assms(4))
    qed
  next
    fix r assume "length (heap w') \<le> r"
    then have r: "length (heap w) \<le> r" by (simp add: assms(2))
    from inv_baseD(3) [OF b, of k0 r] r have "pending (client w) k0 \<noteq> Some r" by auto
    with inv_baseD(2) [OF b r] show "dones r (trace w') = 0" by (simp add: assms(4))
  next
    fix k r assume "pending (client w') k = Some r"
    from inv_baseD(3) [OF b old(1) [OF this]] show "r < length (heap w')" by (simp add: assms(2))
  next
    fix k k' r assume "pending (client w') k = Some r" "pending (client w') k' = Some r"
    from inv_baseD(4) [OF b old(1) [OF this(1)] old(1) [OF this(2)]] show "k = k'" .
  next
    fix k r assume p: "pending (client w') k = Some r"
    from inv_liveD(2) [OF assms(1) old(1) [OF p]] keep [OF p] show "dones r (trace w') = 0"
      by simp
  qed
qed


lemma inv_base_fresh_done:
  assumes "inv_base w" "length (heap w') = Suc (length (heap w))"
    and sub: "\<And>k r. pending (client w') k = Some r \<Longrightarrow> pending (client w) k = Some r"
    and d: "\<And>r. dones r (trace w') =
            dones r (trace w) + (if r = length (heap w) then 1 else 0)"
  shows "inv_base w'"
proof (rule inv_baseI)
  fix r show "dones r (trace w') \<le> 1"
  proof (cases "r = length (heap w)")
    case True
    with inv_baseD(2) [OF assms(1), of r] show ?thesis by (simp add: d)
  next
    case False
    with inv_baseD(1) [OF assms(1), of r] show ?thesis by (simp add: d)
  qed
next
  fix r assume "length (heap w') \<le> r"
  then have "length (heap w) \<le> r" "r \<noteq> length (heap w)" by (simp_all add: assms(2))
  with inv_baseD(2) [OF assms(1), of r] show "dones r (trace w') = 0" by (simp add: d)
next
  fix k r assume "pending (client w') k = Some r"
  from inv_baseD(3) [OF assms(1) sub [OF this]] show "r < length (heap w')"
    by (simp add: assms(2))
next
  fix k k' r assume "pending (client w') k = Some r" "pending (client w') k' = Some r"
  from inv_baseD(4) [OF assms(1) sub [OF this(1)] sub [OF this(2)]] show "k = k'" .
qed

lemma inv_live_fresh_done:
  assumes "inv_live w" "length (heap w') = Suc (length (heap w))"
    and sub: "\<And>k r. pending (client w') k = Some r \<Longrightarrow> pending (client w) k = Some r"
    and d: "\<And>r. dones r (trace w') =
            dones r (trace w) + (if r = length (heap w) then 1 else 0)"
  shows "inv_live w'"
proof (rule inv_liveI)
  show "inv_base w'"
    using inv_base_fresh_done [OF inv_liveD(1) [OF assms(1)] assms(2) sub d] by blast
next
  fix k r assume "pending (client w') k = Some r"
  note p = sub [OF this]
  from inv_baseD(3) [OF inv_liveD(1) [OF assms(1)] p] have "r \<noteq> length (heap w)" by simp
  with inv_liveD(2) [OF assms(1) p] show "dones r (trace w') = 0" by (simp add: d)
qed

lemma inv_base_fresh_insert:
  assumes "inv_base w" "length (heap w') = Suc (length (heap w))"
    and p: "pending (client w') = (pending (client w))(sq \<mapsto> length (heap w))"
    and d: "\<And>r. dones r (trace w') = dones r (trace w)"
  shows "inv_base w'"
proof (rule inv_baseI)
  fix r show "dones r (trace w') \<le> 1" using inv_baseD(1) [OF assms(1), of r] by (simp add: d)
next
  fix r assume "length (heap w') \<le> r"
  then have "length (heap w) \<le> r" by (simp add: assms(2))
  with inv_baseD(2) [OF assms(1), of r] show "dones r (trace w') = 0" by (simp add: d)
next
  fix k r assume "pending (client w') k = Some r"
  then have "r = length (heap w) \<or> pending (client w) k = Some r"
    by (simp add: p split: if_splits)
  with inv_baseD(3) [OF assms(1), of k r] show "r < length (heap w')"
    by (auto simp: assms(2))
next
  fix k k' r assume a: "pending (client w') k = Some r" "pending (client w') k' = Some r"
  show "k = k'"
  proof (cases "r = length (heap w)")
    case True
    have "k = sq" using a(1) True inv_baseD(3) [OF assms(1), of k r]
      by (auto simp: p split: if_splits)
    moreover have "k' = sq" using a(2) True inv_baseD(3) [OF assms(1), of k' r]
      by (auto simp: p split: if_splits)
    ultimately show ?thesis by simp
  next
    case False
    with a have "pending (client w) k = Some r" "pending (client w) k' = Some r"
      by (auto simp: p split: if_splits)
    from inv_baseD(4) [OF assms(1) this] show ?thesis .
  qed
qed

lemma inv_live_fresh_insert:
  assumes "inv_live w" "length (heap w') = Suc (length (heap w))"
    and p: "pending (client w') = (pending (client w))(sq \<mapsto> length (heap w))"
    and d: "\<And>r. dones r (trace w') = dones r (trace w)"
  shows "inv_live w'"
proof (rule inv_liveI)
  show "inv_base w'"
    using inv_base_fresh_insert [OF inv_liveD(1) [OF assms(1)] assms(2) p d] by blast
next
  fix k r assume "pending (client w') k = Some r"
  then have "r = length (heap w) \<or> pending (client w) k = Some r"
    by (simp add: p split: if_splits)
  then show "dones r (trace w') = 0"
  proof
    assume "r = length (heap w)"
    with inv_baseD(2) [OF inv_liveD(1) [OF assms(1)], of r] show ?thesis by (simp add: d)
  next
    assume "pending (client w) k = Some r"
    from inv_liveD(2) [OF assms(1) this] show ?thesis by (simp add: d)
  qed
qed

text \<open>Go: the new call is the next free cell.\<close>

lemma Go_effect:
  assumes "Go m a r dn werr w = Inr (c, w')"
  shows "length (heap w') = Suc (length (heap w))
   \<and> ((pending (client w') = pending (client w)
        \<and> (\<forall>r. dones r (trace w') =
                 dones r (trace w) + (if r = length (heap w) then 1 else 0)))
      \<or> (pending (client w') = (pending (client w))(seq (client w) \<mapsto> length (heap w))
        \<and> (\<forall>r. dones r (trace w') = dones r (trace w)))
      \<or> (pending (client w') = (pending (client w))(seq (client w) := None)
        \<and> (\<forall>r. dones r (trace w') =
                 dones r (trace w) + (if r = length (heap w) then 1 else 0))))"
proof -
  from assms obtain w1 where w1: "w' = send (length (heap w)) werr w1"
    "length (heap w1) = Suc (length (heap w))" "client w1 = client w" "trace w1 = trace w"
    by (auto simp: Go_def Let_def split: option.splits if_splits)
  from send_effect [of "length (heap w)" werr w1] show ?thesis
    unfolding w1(1) [symmetric] w1(2-4) .
qed

lemma Go_inv_base:
  assumes "inv_base w" "Go m a r dn werr w = Inr (c, w')"
  shows "inv_base w'"
proof -
  from Go_effect [OF assms(2)] have l: "length (heap w') = Suc (length (heap w))"
    and e: "(pending (client w') = pending (client w)
        \<and> (\<forall>r. dones r (trace w') =
                 dones r (trace w) + (if r = length (heap w) then 1 else 0)))
      \<or> (pending (client w') = (pending (client w))(seq (client w) \<mapsto> length (heap w))
        \<and> (\<forall>r. dones r (trace w') = dones r (trace w)))
      \<or> (pending (client w') = (pending (client w))(seq (client w) := None)
        \<and> (\<forall>r. dones r (trace w') =
                 dones r (trace w) + (if r = length (heap w) then 1 else 0)))"
    by blast+
  from e show ?thesis
  proof (elim disjE conjE)
    assume "pending (client w') = pending (client w)"
      "\<forall>r. dones r (trace w') = dones r (trace w) + (if r = length (heap w) then 1 else 0)"
    then show ?thesis by (intro inv_base_fresh_done [OF assms(1) l]) simp_all
  next
    assume "pending (client w') = (pending (client w))(seq (client w) \<mapsto> length (heap w))"
      "\<forall>r. dones r (trace w') = dones r (trace w)"
    then show ?thesis by (intro inv_base_fresh_insert [OF assms(1) l]) simp_all
  next
    assume "pending (client w') = (pending (client w))(seq (client w) := None)"
      "\<forall>r. dones r (trace w') = dones r (trace w) + (if r = length (heap w) then 1 else 0)"
    then show ?thesis
      by (intro inv_base_fresh_done [OF assms(1) l]) (simp_all split: if_splits)
  qed
qed

lemma Go_inv_live:
  assumes "inv_live w" "Go m a r dn werr w = Inr (c, w')"
  shows "inv_live w'"
proof -
  from Go_effect [OF assms(2)] have l: "length (heap w') = Suc (length (heap w))"
    and e: "(pending (client w') = pending (client w)
        \<and> (\<forall>r. dones r (trace w') =
                 dones r (trace w) + (if r = length (heap w) then 1 else 0)))
      \<or> (pending (client w') = (pending (client w))(seq (client w) \<mapsto> length (heap w))
        \<and> (\<forall>r. dones r (trace w') = dones r (trace w)))
      \<or> (pending (client w') = (pending (client w))(seq (client w) := None)
        \<and> (\<forall>r. dones r (trace w') =
                 dones r (trace w) + (if r = length (heap w) then 1 else 0)))"
    by blast+
  from e show ?thesis
  proof (elim disjE conjE)
    assume "pending (client w') = pending (client w)"
      "\<forall>r. dones r (trace w') = dones r (trace w) + (if r = length (heap w) then 1 else 0)"
    then show ?thesis by (intro inv_live_fresh_done [OF assms(1) l]) simp_all
  next
    assume "pending (client w') = (pending (client w))(seq (client w) \<mapsto> length (heap w))"
      "\<forall>r. dones r (trace w') = dones r (trace w)"
    then show ?thesis by (intro inv_live_fresh_insert [OF assms(1) l]) simp_all
  next
    assume "pending (client w') = (pending (client w))(seq (client w) := None)"
      "\<forall>r. dones r (trace w') = dones r (trace w) + (if r = length (heap w) then 1 else 0)"
    then show ?thesis
      by (intro inv_live_fresh_done [OF assms(1) l]) (simp_all split: if_splits)
  qed
qed

lemma Call_Go_inv:
  assumes "Call_Go m a r werr w = Inr (c, w')"
  shows "inv_base w \<Longrightarrow> inv_base w'" and "inv_live w \<Longrightarrow> inv_live w'"
proof -
  define w0 where "w0 = w\<lparr>chans := chans w @ [\<lparr>chan_cap = 2, chan_buf = []\<rparr>]\<rparr>"
  from assms have g: "Go m a r (Some (length (chans w))) werr w0 = Inr (c, w')"
    by (simp add: Call_Go_def Let_def w0_def)
  show "inv_base w \<Longrightarrow> inv_base w'"
    by (rule Go_inv_base [OF _ g], erule inv_base_same) (simp_all add: w0_def)
  show "inv_live w \<Longrightarrow> inv_live w'"
    by (rule Go_inv_live [OF _ g], erule inv_live_same) (simp_all add: w0_def)
qed

lemma Call_ctxDone_inv:
  assumes "Call_ctxDone call e werr w = Inr (e', w')"
  shows "inv_base w \<Longrightarrow> inv_base w'" and "inv_live w \<Longrightarrow> inv_live w'"
proof -
  define sq where "sq = call_seq (heap w ! call)"
  define w3 where "w3 = emit [Unlock Mutex]
     (let w0 = emit [Lock Mutex] w;
          w1 = w0\<lparr>client := (client w0)\<lparr>pending := (pending (client w0))(sq := None)\<rparr>\<rparr>
      in if sq = 0 then w1\<lparr>heap := (heap w1)[call := (heap w1 ! call)\<lparr>call_seq := 1\<rparr>]\<rparr> else w1)"
  have w3: "length (heap w3) = length (heap w)"
    "pending (client w3) = (pending (client w))(sq := None)"
    "\<And>r. dones r (trace w3) = dones r (trace w)"
    by (simp_all add: w3_def dn_simps)
  from assms have "w' = w3 \<or> (\<exists>m a r dn c. Go m a r dn werr w3 = Inr (c, w'))"
    by (auto simp: Call_ctxDone_def Let_def w3_def sq_def emit_simps split: if_splits sum.splits)
  moreover have "inv_base w3" if "inv_base w"
    using that by (rule inv_base_remove) (simp_all add: w3)
  moreover have "inv_live w3" if "inv_live w"
    using that by (rule inv_live_remove) (simp_all add: w3)
  ultimately show "inv_base w \<Longrightarrow> inv_base w'" and "inv_live w \<Longrightarrow> inv_live w'"
    by (auto elim: Go_inv_base [rotated] Go_inv_live [rotated])
qed

lemma Call_Done_inv:
  assumes "Call_Done call w = Some (e, w')"
  shows "inv_base w \<Longrightarrow> inv_base w'" and "inv_live w \<Longrightarrow> inv_live w'"
proof -
  from assms have "heap w' = heap w" "client w' = client w" "trace w' = trace w"
    by (auto simp: Call_Done_def Let_def split: list.splits)
  then show "inv_base w \<Longrightarrow> inv_base w'" and "inv_live w \<Longrightarrow> inv_live w'"
    by (auto elim: inv_base_same inv_live_same)
qed

lemma dones_terminate_events:
  "dones r (terminate_events err ks w) =
     length (filter (\<lambda>k. pending (client w) k = Some r) ks)"
  by (induction ks arbitrary: w) (auto simp: dones_Cons split: option.splits)

lemma readLoop_exit_effect:
  assumes "readLoop_exit err ks w = Inr w'"
  shows "length (heap w') = length (heap w)" "pending (client w') = pending (client w)"
    "dones r (trace w') =
       dones r (trace w) + length (filter (\<lambda>k. pending (client w) k = Some r) ks)"
proof -
  define E where "E = (if err = EOF then (if closing (client w) then ErrShutdown
                        else ErrUnexpectedEOF) else err)"
  define w1 where "w1 = (emit [Lock Sending, Lock Mutex] w)
                          \<lparr>client := (client w)\<lparr>shutdown := True\<rparr>\<rparr>"
  define w2 where "w2 = terminate_calls E ks w1"
  define w4 where "w4 = emit [CloseDisconnect]
                 ((emit [Unlock Mutex, Unlock Sending] w2)
                    \<lparr>client := (client w2)\<lparr>disconnect := True\<rparr>\<rparr>)"
  from assms have w': "w' = (if \<not> closing (client w) then emit [CodecClose] w4 else w4)"
    by (simp add: readLoop_exit_def Let_def emit_simps w4_def w2_def w1_def E_def
        split: if_splits)
  have h: "length (heap w4) = length (heap w)"
    by (simp add: w4_def w2_def w1_def emit_simps)
  have p: "pending (client w4) = pending (client w)"
    by (simp add: w4_def w2_def w1_def emit_simps)
  have t: "trace w4 = trace w @ [Lock Sending, Lock Mutex] @ terminate_events E ks w1
             @ [Unlock Mutex, Unlock Sending, CloseDisconnect]"
    by (simp add: w4_def w2_def emit_simps trace_terminate_calls) (simp add: w1_def emit_simps)
  have d: "dones r (trace w4) =
       dones r (trace w) + length (filter (\<lambda>k. pending (client w) k = Some r) ks)"
    by (simp add: t dones_append dones_Cons dones_terminate_events) (simp add: w1_def emit_simps)
  show "length (heap w') = length (heap w)" using h by (simp add: w' emit_simps)
  show "pending (client w') = pending (client w)" using p by (simp add: w' emit_simps)
  show "dones r (trace w') =
       dones r (trace w) + length (filter (\<lambda>k. pending (client w) k = Some r) ks)"
    using d by (simp add: w' emit_simps dones_append dones_Cons)
qed

lemma filter_same_le_1:
  assumes "distinct ks" "\<And>k k'. P k \<Longrightarrow> P k' \<Longrightarrow> k = k'"
  shows "length (filter P ks) \<le> 1"
  using assms(1)
proof (induction ks)
  case Nil
  then show ?case by simp
next
  case (Cons a ks)
  then have d: "a \<notin> set ks" "distinct ks" by simp_all
  show ?case
  proof (cases "P a")
    case True
    have "\<forall>k\<in>set ks. \<not> P k"
    proof
      fix k assume k: "k \<in> set ks"
      show "\<not> P k"
      proof
        assume "P k"
        from assms(2) [OF True this] k d(1) show False by simp
      qed
    qed
    then have "filter P ks = []" by (simp add: filter_empty_conv)
    with True show ?thesis by simp
  next
    case False
    with Cons.IH [OF d(2)] show ?thesis by simp
  qed
qed

lemma readLoop_exit_inv:
  assumes "inv_live w" "distinct ks" "readLoop_exit err ks w = Inr w'"
  shows "inv_base w'"
proof -
  note b = inv_liveD(1) [OF assms(1)]
  note e = readLoop_exit_effect [OF assms(3)]
  define cnt where "cnt r = length (filter (\<lambda>k. pending (client w) k = Some r) ks)" for r
  have d: "dones r (trace w') = dones r (trace w) + cnt r" for r
    unfolding cnt_def by (rule e(3))
  have c1: "cnt r \<le> 1" for r
    unfolding cnt_def
  proof (rule filter_same_le_1 [OF assms(2)])
    fix k k' assume "pending (client w) k = Some r" "pending (client w) k' = Some r"
    then show "k = k'" by (rule inv_baseD(4) [OF b])
  qed
  have c0: "cnt r = 0" if "\<forall>k. pending (client w) k \<noteq> Some r" for r
    unfolding cnt_def using that by (simp add: filter_empty_conv)
  show ?thesis
  proof (rule inv_baseI)
    fix r show "dones r (trace w') \<le> 1"
    proof (cases "\<forall>k. pending (client w) k \<noteq> Some r")
      case True
      from c0 [OF True] inv_baseD(1) [OF b, of r] show ?thesis by (simp add: d)
    next
      case False
      then obtain k where "pending (client w) k = Some r" by blast
      from inv_liveD(2) [OF assms(1) this] c1 [of r] show ?thesis by (simp add: d)
    qed
  next
    fix r assume "length (heap w') \<le> r"
    then have r: "length (heap w) \<le> r" by (simp add: e(1))
    have "\<forall>k. pending (client w) k \<noteq> Some r"
    proof
      fix k show "pending (client w) k \<noteq> Some r"
      proof
        assume "pending (client w) k = Some r"
        from inv_baseD(3) [OF b this] r show False by simp
      qed
    qed
    from c0 [OF this] inv_baseD(2) [OF b r] show "dones r (trace w') = 0" by (simp add: d)
  next
    fix k r assume "pending (client w') k = Some r"
    then have "pending (client w) k = Some r" by (simp add: e(2))
    from inv_baseD(3) [OF b this] show "r < length (heap w')" by (simp add: e(1))
  next
    fix k k' r assume "pending (client w') k = Some r" "pending (client w') k' = Some r"
    then have "pending (client w) k = Some r" "pending (client w) k' = Some r"
      by (simp_all add: e(2))
    then show "k = k'" by (rule inv_baseD(4) [OF b])
  qed
qed

lemma Handle_pending: "Handle c m f = Inr c' \<Longrightarrow> pending c' = pending c"
  by (auto simp: Handle_def split: sum.splits)

text \<open>The steps that neither read nor end the read loop keep both invariants.\<close>

lemma exec_other_inv:
  assumes "\<not> is_read a" "exec a w = Inr w'"
  shows "inv_base w \<Longrightarrow> inv_base w'" and "inv_live w \<Longrightarrow> inv_live w'"
proof -
  have "(inv_base w \<longrightarrow> inv_base w') \<and> (inv_live w \<longrightarrow> inv_live w')"
  proof (cases a)
    case (AGo m ar r dn werr)
    show ?thesis
    proof (cases "w' = w")
      case True then show ?thesis by simp
    next
      case False
      with AGo assms(2) obtain c where "Go m ar r dn werr w = Inr (c, w')"
        by (cases "Go m ar r dn werr w") (auto split: if_splits)
      then show ?thesis using Go_inv_base Go_inv_live by blast
    qed
  next
    case (ACall m ar r werr)
    with assms(2) obtain c where "Call_Go m ar r werr w = Inr (c, w')"
      by (cases "Call_Go m ar r werr w") auto
    then show ?thesis using Call_Go_inv by blast
  next
    case (ACallDone c)
    show ?thesis
    proof (cases "w' = w")
      case True then show ?thesis by simp
    next
      case False
      with ACallDone assms(2) obtain e where "Call_Done c w = Some (e, w')"
        by (auto split: if_splits option.splits)
      then show ?thesis using Call_Done_inv by blast
    qed
  next
    case (ACtxDone c e werr)
    show ?thesis
    proof (cases "w' = w")
      case True then show ?thesis by simp
    next
      case False
      with ACtxDone assms(2) obtain e' where "Call_ctxDone c e werr w = Inr (e', w')"
        by (cases "Call_ctxDone c e werr w") (auto split: if_splits)
      then show ?thesis using Call_ctxDone_inv by blast
    qed
  next
    case (ANotify m ar werr)
    with assms(2) have w': "w' = snd (Notify m ar werr w)" by simp
    from Notify_effect' [of m ar werr w] show ?thesis
      unfolding w' by (auto intro: inv_base_same inv_live_same)
  next
    case (AClose cerr)
    with assms(2) have w': "w' = snd (Close cerr w)" by simp
    from Close_effect [of cerr w] show ?thesis
      unfolding w' by (auto intro: inv_base_same inv_live_same)
  next
    case (AReadRequest rq b wr)
    with assms(1) show ?thesis by simp
  next
    case (AHandleRequest rq av wr)
    show ?thesis
    proof (cases "handlers (client w) (req_Method rq)")
      case None
      with AHandleRequest assms(2) show ?thesis by simp
    next
      case (Some m)
      with AHandleRequest assms(2) have w': "w' = handleRequest rq m av wr w" by simp
      from handleRequest_effect [of rq m av wr w] show ?thesis
        unfolding w' by (auto intro: inv_base_same inv_live_same)
    qed
  next
    case (AReadResponse rs b)
    with assms(1) show ?thesis by simp
  next
    case (AExit e ks)
    with assms(1) show ?thesis by simp
  next
    case (AMakeChan n)
    with assms(2) have "heap w' = heap w" "client w' = client w" "trace w' = trace w" by auto
    then show ?thesis by (auto intro: inv_base_same inv_live_same)
  next
    case (ARecv ch)
    with assms(2) have "heap w' = heap w" "client w' = client w" "trace w' = trace w"
      by (auto split: if_splits)
    then show ?thesis by (auto intro: inv_base_same inv_live_same)
  next
    case (AHandle m f)
    with assms(2) obtain c where c: "Handle (client w) m f = Inr c" "w' = w\<lparr>client := c\<rparr>"
      by (auto split: sum.splits)
    from Handle_pending [OF c(1)] c(2)
    have "heap w' = heap w" "pending (client w') = pending (client w)" "trace w' = trace w"
      by simp_all
    then show ?thesis by (auto intro: inv_base_same inv_live_same)
  next
    case (ASetBlocking b)
    with assms(2) have "heap w' = heap w" "pending (client w') = pending (client w)"
      "trace w' = trace w" by auto
    then show ?thesis by (auto intro: inv_base_same inv_live_same)
  qed
  then show "inv_base w \<Longrightarrow> inv_base w'" and "inv_live w \<Longrightarrow> inv_live w'" by blast+
qed

lemma exec_live_inv:
  assumes "inv_live w" "\<not> is_exit a" "exec a w = Inr w'"
  shows "inv_live w'"
proof (cases "is_read a")
  case False
  from exec_other_inv(2) [OF False assms(3) assms(1)] show ?thesis .
next
  case True
  with assms(2) consider (rq) req b wr where "a = AReadRequest req b wr"
    | (rs) resp b where "a = AReadResponse resp b"
    by (cases a) auto
  then show ?thesis
  proof cases
    case rq
    with assms(3) have w': "w' = snd (readRequest req b wr w)" by simp
    from readRequest_effect [of req b wr w] assms(1) show ?thesis
      unfolding w' by (auto intro: inv_live_same)
  next
    case rs
    with assms(3) have w': "w' = snd (readResponse resp b w)" by simp
    from readResponse_effect [of resp b w] assms(1) show ?thesis
      unfolding w' by (auto intro: inv_live_answer)
  qed
qed

lemma exec_exit_inv:
  assumes "inv_live w" "is_exit a" "exec a w = Inr w'"
  shows "inv_base w'"
proof -
  from assms(2) obtain e ks where a: "a = AExit e ks" by (cases a) auto
  show ?thesis
  proof (cases "distinct ks \<and> set ks = dom (pending (client w))")
    case True
    with a assms(3) have "readLoop_exit e ks w = Inr w'" by simp
    from readLoop_exit_inv [OF assms(1) _ this] True show ?thesis by simp
  next
    case False
    with a assms(3) have "w' = w" by auto
    with inv_liveD(1) [OF assms(1)] show ?thesis by simp
  qed
qed

lemma run_base_inv:
  "inv_base w \<Longrightarrow> list_all (\<lambda>b. \<not> is_read b) as \<Longrightarrow> run w as = Inr w' \<Longrightarrow> inv_base w'"
proof (induction as arbitrary: w)
  case Nil
  then show ?case by simp
next
  case (Cons a as)
  from Cons.prems(3) obtain w1 where w1: "exec a w = Inr w1" "run w1 as = Inr w'"
    by (auto split: sum.splits)
  from Cons.prems(2) have "\<not> is_read a" "list_all (\<lambda>b. \<not> is_read b) as" by simp_all
  from Cons.IH [OF exec_other_inv(1) [OF this(1) w1(1) Cons.prems(1)] this(2) w1(2)]
  show ?case .
qed

lemma run_live_inv:
  "inv_live w \<Longrightarrow> single_reader as \<Longrightarrow> run w as = Inr w' \<Longrightarrow> inv_base w'"
proof (induction as arbitrary: w)
  case Nil
  then show ?case by (simp add: inv_liveD(1))
next
  case (Cons a as)
  from Cons.prems(3) obtain w1 where w1: "exec a w = Inr w1" "run w1 as = Inr w'"
    by (auto split: sum.splits)
  show ?case
  proof (cases "is_exit a")
    case True
    with Cons.prems(2) have "list_all (\<lambda>b. \<not> is_read b) as" by simp
    from run_base_inv [OF exec_exit_inv [OF Cons.prems(1) True w1(1)] this w1(2)]
    show ?thesis .
  next
    case False
    with Cons.prems(2) have "single_reader as" by simp
    from Cons.IH [OF exec_live_inv [OF Cons.prems(1) False w1(1)] this w1(2)]
    show ?thesis .
  qed
qed




text \<open>Runs with the write of a request as a step of its own: how the parts relate to the
  whole operations, and what each part does.\<close>

lemma Go_split:
  "Go m a r dn werr w =
     (case Go_alloc m a r dn w of
        Inl p \<Rightarrow> Inl p
      | Inr (call, w1) \<Rightarrow> Inr (call, send call werr w1))"
  by (simp add: Go_def Go_alloc_def Let_def split: option.splits)

lemma Call_ctxDone_split:
  "Call_ctxDone call ctxErr werr w =
     (case Call_ctxDone_remove call w of
        ((sq, ok), w3) \<Rightarrow>
          if sq \<noteq> 0 \<and> ok then
            (case Go ''_goRPC_.Cancel'' (IPtr (ICancelArgs sq)) INil
                    (Some (call_Done (heap w3 ! call))) werr w3 of
               Inl p \<Rightarrow> Inl p
             | Inr (cancel_call, w4) \<Rightarrow> Inr (ctxErr, w4))
          else Inr (ctxErr, w3))"
  by (simp add: Call_ctxDone_def Call_ctxDone_remove_def Let_def)

lemma run_steps_Whole:
  "run_steps (w, None) (map Whole as) = (case run w as of Inl p \<Rightarrow> Inl p | Inr w' \<Rightarrow> Inr (w', None))"
  by (induction as arbitrary: w) (auto split: sum.splits)







lemma inv_writing_None [simp]: "inv_writing w None"
  by (simp add: inv_writing_def)

















lemma deliveries_Nil [simp]: "deliveries r [] = 0"
  by (simp add: deliveries_def)





end
